theory Spec2Isabelle
  imports Main "HOL-Library.AList"
begin

section \<open>The CSR store of \<open>src/Matrix.ts\<close>\<close>

text \<open>
  A JavaScript \<open>number\<close> stored in \<open>V\<close> is modelled as a mathematical integer: rounding,
  \<open>NaN\<close> and the infinities are outside the model. Offsets and column indices are natural
  numbers, row and column counts are integers (the constructor stores whatever it is given).
  Reading an array beyond its end gives \<open>undefined\<close> in the source; \<open>nth_opt\<close> makes that
  \<open>None\<close>. Where the source would go on computing with \<open>undefined\<close> or \<open>NaN\<close>, or leave a
  hole in an array, the model stops with \<open>OutOfModel\<close>.
\<close>

datatype error =
    DimensionMismatch  \<comment> \<open>\<open>throw new Error("Matrix dimensions must match.")\<close>\<close>
  | NotSquareMatrix    \<comment> \<open>\<open>throw new Error("A matriz nao e quadrada")\<close>\<close>
  | RangeError         \<comment> \<open>\<open>new Array(n)\<close> with a negative \<open>n\<close>\<close>
  | TypeError          \<comment> \<open>indexing into \<open>undefined\<close>\<close>
  | OutOfModel         \<comment> \<open>the run leaves the modelled fragment (see above)\<close>

record matrix =
  rows :: int
  cols :: int
  V :: "int list"
  COL_INDEX :: "nat list"
  ROW_INDEX :: "nat list"

definition nth_opt :: "'a list \<Rightarrow> nat \<Rightarrow> 'a option" where
  "nth_opt xs i = (if i < length xs then Some (xs ! i) else None)"

text \<open>\<open>xs.slice(s, e)\<close>: an \<open>undefined\<close> start is 0, an \<open>undefined\<close> end is the length,
  both are clamped to the length.\<close>

definition js_slice :: "'a list \<Rightarrow> nat option \<Rightarrow> nat option \<Rightarrow> 'a list" where
  "js_slice xs s e =
     (let a = (case s of None \<Rightarrow> 0 | Some k \<Rightarrow> k);
          b = (case e of None \<Rightarrow> length xs | Some k \<Rightarrow> k)
      in take (b - a) (drop a xs))"

text \<open>\<open>xs.indexOf(x)\<close>, with \<open>None\<close> for \<open>-1\<close>.\<close>

fun index_of :: "'a list \<Rightarrow> 'a \<Rightarrow> nat option" where
  "index_of [] x = None"
| "index_of (y # ys) x = (if y = x then Some 0 else map_option Suc (index_of ys x))"

text \<open>\<open>xs.splice(i, 0, x)\<close> and \<open>xs.splice(i, 1)\<close>; the position is clamped to the length.\<close>

definition splice_insert :: "'a list \<Rightarrow> nat \<Rightarrow> 'a \<Rightarrow> 'a list" where
  "splice_insert xs i x = take i xs @ x # drop i xs"

definition splice_remove :: "'a list \<Rightarrow> nat \<Rightarrow> 'a list" where
  "splice_remove xs i = take i xs @ drop (Suc i) xs"

subsection \<open>Construction from a dense array\<close>

text \<open>A cell of the dense input is a number or something else (\<open>typeof\<close> is not
  \<open>"number"\<close>); a row is an array or a falsy value (\<open>None\<close>); rows and cells beyond the end
  of an array are \<open>undefined\<close>.\<close>

datatype cell = Num int | NotNum

type_synonym dense = "cell list option list"

text \<open>The test \<open>data[i] && typeof data[i][j] === "number" && data[i][j] != 0\<close>, giving the
  number to store.\<close>

definition data_cell :: "dense \<Rightarrow> nat \<Rightarrow> nat \<Rightarrow> int option" where
  "data_cell d i j =
     (case nth_opt d i of
        None \<Rightarrow> None
      | Some None \<Rightarrow> None
      | Some (Some r) \<Rightarrow>
          (case nth_opt r j of
             Some (Num x) \<Rightarrow> if x \<noteq> 0 then Some x else None
           | _ \<Rightarrow> None))"

definition sparse_cell ::
  "dense \<Rightarrow> nat \<Rightarrow> int list \<times> nat list \<times> nat \<Rightarrow> nat \<Rightarrow> int list \<times> nat list \<times> nat" where
  "sparse_cell d i st j =
     (case st of (v, ci, row_end) \<Rightarrow>
        (case data_cell d i j of
           Some x \<Rightarrow> (v @ [x], ci @ [j], row_end + 1)
         | None \<Rightarrow> (v, ci, row_end)))"

definition sparse_row ::
  "dense \<Rightarrow> nat \<Rightarrow> int list \<times> nat list \<times> nat list \<times> nat \<Rightarrow> nat
     \<Rightarrow> int list \<times> nat list \<times> nat list \<times> nat" where
  "sparse_row d c st i =
     (case st of (v, ci, ri, row_end) \<Rightarrow>
        (case foldl (sparse_cell d i) (v, ci, row_end) [0..<c] of
           (v', ci', row_end') \<Rightarrow> (v', ci', ri @ [row_end'], row_end')))"

definition sparseData :: "matrix \<Rightarrow> dense \<Rightarrow> matrix" where
  "sparseData m d =
     (case foldl (sparse_row d (nat (cols m))) ([], [], [0], 0) [0..<nat (rows m)] of
        (v, ci, ri, row_end) \<Rightarrow> m\<lparr>V := v, COL_INDEX := ci, ROW_INDEX := ri\<rparr>)"

text \<open>The constructor: the field initialisers, then \<open>if (data) this.sparseData(data)\<close>.
  No path of it throws.\<close>

definition construct :: "int \<Rightarrow> int \<Rightarrow> dense option \<Rightarrow> error + matrix" where
  "construct r c dd =
     (let m = \<lparr>rows = r, cols = c, V = [], COL_INDEX = [], ROW_INDEX = [0]\<rparr>
      in case dd of None \<Rightarrow> Inr m | Some d \<Rightarrow> Inr (sparseData m d))"

subsection \<open>Point access\<close>

text \<open>\<open>this.COL_INDEX.slice(this.ROW_INDEX[row], this.ROW_INDEX[row + 1])\<close>, the first
  line of \<open>get\<close> and of \<open>set\<close>.\<close>

definition columns_of :: "matrix \<Rightarrow> nat \<Rightarrow> nat list" where
  "columns_of m row =
     js_slice (COL_INDEX m) (nth_opt (ROW_INDEX m) row) (nth_opt (ROW_INDEX m) (row + 1))"

text \<open>\<open>get(row, col)\<close>; \<open>None\<close> is the \<open>undefined\<close> that reading \<open>V\<close> beyond its end gives.\<close>

definition get :: "matrix \<Rightarrow> nat \<Rightarrow> nat \<Rightarrow> int option" where
  "get m row col =
     (let columns = columns_of m row
      in case index_of columns col of
           None \<Rightarrow> Some 0
         | Some i \<Rightarrow>
             (case nth_opt (ROW_INDEX m) row of
                None \<Rightarrow> None
              | Some s \<Rightarrow> nth_opt (V m) (s + i)))"

text \<open>The two loops over \<open>ROW_INDEX[row + 1 ..]\<close> of \<open>set\<close>. An offset that would become
  negative is outside the model.\<close>

definition incr_from :: "nat \<Rightarrow> nat list \<Rightarrow> nat list" where
  "incr_from k ri = take k ri @ map (\<lambda>x. x + 1) (drop k ri)"

definition decr_from :: "nat \<Rightarrow> nat list \<Rightarrow> error + nat list" where
  "decr_from k ri =
     (if 0 \<in> set (drop k ri) then Inl OutOfModel
      else Inr (take k ri @ map (\<lambda>x. x - 1) (drop k ri)))"

text \<open>\<open>set(row, col, value)\<close>, in place: the result is the receiver after the call.
  With \<open>ROW_INDEX[row]\<close> undefined the position is \<open>NaN\<close>, which \<open>splice\<close> reads as 0 and
  which as an index of \<open>V\<close> names no element.\<close>

definition set_cell :: "matrix \<Rightarrow> nat \<Rightarrow> nat \<Rightarrow> int \<Rightarrow> error + matrix" where
  "set_cell m row col val =
     (let columns = columns_of m row
      in case index_of columns col of
           None \<Rightarrow>
             (if val \<noteq> 0 then
                (let index = (case nth_opt (ROW_INDEX m) row of
                                None \<Rightarrow> 0 | Some s \<Rightarrow> s + length columns)
                 in Inr (m\<lparr>COL_INDEX := splice_insert (COL_INDEX m) index col,
                           V := splice_insert (V m) index val,
                           ROW_INDEX := incr_from (row + 1) (ROW_INDEX m)\<rparr>))
              else Inr m)
         | Some i \<Rightarrow>
             (if val = 0 then
                (let index = (case nth_opt (ROW_INDEX m) row of
                                None \<Rightarrow> 0 | Some s \<Rightarrow> s + i)
                 in case decr_from (row + 1) (ROW_INDEX m) of
                      Inl e \<Rightarrow> Inl e
                    | Inr ri \<Rightarrow>
                        Inr (m\<lparr>COL_INDEX := splice_remove (COL_INDEX m) index,
                               V := splice_remove (V m) index,
                               ROW_INDEX := ri\<rparr>))
              else
                (case nth_opt (ROW_INDEX m) row of
                   None \<Rightarrow> Inl OutOfModel
                 | Some s \<Rightarrow>
                     if s + i < length (V m) then Inr (m\<lparr>V := (V m)[s + i := val]\<rparr>)
                     else if s + i = length (V m) then Inr (m\<lparr>V := V m @ [val]\<rparr>)
                     else Inl OutOfModel)))"

subsection \<open>The invariants of the data model\<close>

text \<open>Invariant 1: the column indices of every row, \<open>COL_INDEX[ROW_INDEX[r] ..
  ROW_INDEX[r + 1])\<close>, are strictly increasing.\<close>

definition inv_sorted :: "matrix \<Rightarrow> bool" where
  "inv_sorted m =
     list_all (\<lambda>r. sorted_wrt (<) (columns_of m r)) [0..<length (ROW_INDEX m) - 1]"

text \<open>Invariant 2: no stored value is zero.\<close>

definition inv_nonzero :: "matrix \<Rightarrow> bool" where
  "inv_nonzero m = list_all (\<lambda>x. x \<noteq> 0) (V m)"

text \<open>Invariant 3, with the data model's reading of \<open>ROW_INDEX\<close>: it starts at 0, is
  non-decreasing, and its last entry is the number of stored entries.\<close>

definition inv_offsets :: "matrix \<Rightarrow> bool" where
  "inv_offsets m =
     (ROW_INDEX m \<noteq> [] \<and> hd (ROW_INDEX m) = 0 \<and> sorted (ROW_INDEX m)
      \<and> last (ROW_INDEX m) = length (V m))"

text \<open>The shape of the data model: one offset per row and one more, aligned value and
  column arrays, column indices below \<open>cols\<close>.\<close>

definition csr_shape :: "matrix \<Rightarrow> bool" where
  "csr_shape m =
     (0 \<le> rows m \<and> 0 \<le> cols m \<and> length (ROW_INDEX m) = nat (rows m) + 1
      \<and> length (COL_INDEX m) = length (V m)
      \<and> list_all (\<lambda>c. int c < cols m) (COL_INDEX m))"

text \<open>The three numbered invariants, and all that the data model asks of a store.\<close>

definition csr_invariants :: "matrix \<Rightarrow> bool" where
  "csr_invariants m = (inv_sorted m \<and> inv_nonzero m \<and> inv_offsets m)"

definition csr_inv :: "matrix \<Rightarrow> bool" where
  "csr_inv m = (csr_shape m \<and> csr_invariants m)"

subsection \<open>Walking the stored entries\<close>

text \<open>The loops over a row read \<open>COL_INDEX[j]\<close> and \<open>V[j]\<close> for
  \<open>ROW_INDEX[i] \<le> j < ROW_INDEX[i + 1]\<close>. They stay inside the arrays when the two arrays
  are aligned and no offset points beyond them; the operations below check this first and
  stop with \<open>OutOfModel\<close> otherwise.\<close>

definition in_model :: "matrix \<Rightarrow> bool" where
  "in_model m =
     (length (COL_INDEX m) = length (V m)
      \<and> list_all (\<lambda>x. x \<le> length (V m)) (ROW_INDEX m))"

text \<open>The indices visited by \<open>for (j = ROW_INDEX[i]; j < ROW_INDEX[i + 1]; j++)\<close>: none
  when a bound is \<open>undefined\<close>, since a comparison with \<open>undefined\<close> is false.\<close>

definition row_seg :: "matrix \<Rightarrow> nat \<Rightarrow> nat list" where
  "row_seg m i =
     (case nth_opt (ROW_INDEX m) i of
        None \<Rightarrow> []
      | Some s \<Rightarrow> (case nth_opt (ROW_INDEX m) (i + 1) of None \<Rightarrow> [] | Some e \<Rightarrow> [s..<e]))"

definition row_entries :: "matrix \<Rightarrow> nat \<Rightarrow> (nat \<times> int) list" where
  "row_entries m i = map (\<lambda>j. (COL_INDEX m ! j, V m ! j)) (row_seg m i)"

text \<open>\<open>forEach(callback)\<close> in its strict mode: the calls \<open>callback(value, row, col)\<close> in
  order, the callback acting on a state \<open>'s\<close>. (The non-strict mode is not used by the
  operations modelled here.)\<close>

definition stored_entries :: "matrix \<Rightarrow> (int \<times> nat \<times> nat) list" where
  "stored_entries m =
     concat (map (\<lambda>row. map (\<lambda>(col, v). (v, row, col)) (row_entries m row))
               [0..<length (ROW_INDEX m) - 1])"

definition forEach_strict :: "(int \<Rightarrow> nat \<Rightarrow> nat \<Rightarrow> 's \<Rightarrow> 's) \<Rightarrow> matrix \<Rightarrow> 's \<Rightarrow> 's" where
  "forEach_strict callback m s =
     foldl (\<lambda>s (v, row, col). callback v row col s) s (stored_entries m)"

subsection \<open>Dense projections\<close>

text \<open>The assignment \<open>data[row][col] = value\<close> of the \<open>data\<close> getter.\<close>

definition data_write ::
  "int \<Rightarrow> nat \<Rightarrow> nat \<Rightarrow> error + int list list \<Rightarrow> error + int list list" where
  "data_write v row col st =
     (case st of
        Inl e \<Rightarrow> Inl e
      | Inr d \<Rightarrow>
          (case nth_opt d row of
             None \<Rightarrow> Inl TypeError
           | Some r \<Rightarrow>
               if col < length r then Inr (d[row := r[col := v]])
               else if col = length r then Inr (d[row := r @ [v]])
               else Inl OutOfModel))"

definition data :: "matrix \<Rightarrow> error + int list list" where
  "data m =
     (if rows m < 0 then Inl RangeError
      else if 0 < rows m \<and> cols m < 0 then Inl RangeError
      else if \<not> in_model m then Inl OutOfModel
      else forEach_strict data_write m
             (Inr (replicate (nat (rows m)) (replicate (nat (cols m)) 0))))"

definition toArray :: "matrix \<Rightarrow> int option list" where
  "toArray m =
     concat (map (\<lambda>row. map (\<lambda>col. get m row col) [0..<nat (cols m)]) [0..<nat (rows m)])"

text \<open>The \<open>r\<close> by \<open>c\<close> grid of the values found in the rows of a store. For a store that
  satisfies the invariants it is what \<open>data\<close> returns (lemma \<open>data_grid\<close> below); the
  lemmas on the determinant are stated on it, since the minors that \<open>csrMatrixSubmatrix\<close>
  builds do not carry their own dimensions.\<close>

definition grid :: "matrix \<Rightarrow> nat \<Rightarrow> nat \<Rightarrow> int list list" where
  "grid m r c = map (\<lambda>i. map (\<lambda>j. (case map_of (row_entries m i) j of None \<Rightarrow> 0 | Some y \<Rightarrow> y))
                              [0..<c]) [0..<r]"

subsection \<open>\<open>map\<close>\<close>

text \<open>The callback is a pure function of the value and its position. \<open>map_matrix\<close>
  returns the receiver as the call leaves it, and the result.\<close>

definition map_strict_step ::
  "(int \<Rightarrow> nat \<Rightarrow> nat \<Rightarrow> int) \<Rightarrow> int \<Rightarrow> nat \<Rightarrow> nat
     \<Rightarrow> int list \<times> nat list \<times> nat list \<Rightarrow> int list \<times> nat list \<times> nat list" where
  "map_strict_step callback v row col st =
     (case st of (cv, cc, cr) \<Rightarrow>
        (let newValue = callback v row col;
             cv' = (if newValue \<noteq> 0 then cv @ [newValue] else cv);
             cc' = (if newValue \<noteq> 0 then cc @ [col] else cc);
             cr' = (if int (length cr) - 1 < int row + 1 then cr @ [length cv'] else cr)
         in (cv', cc', cr')))"

definition map_grid_cell ::
  "(int \<Rightarrow> nat \<Rightarrow> nat \<Rightarrow> int) \<Rightarrow> nat \<Rightarrow> matrix \<times> (error + nat) \<Rightarrow> nat
     \<Rightarrow> matrix \<times> (error + nat)" where
  "map_grid_cell callback i st j =
     (case st of
        (this, Inl e) \<Rightarrow> (this, Inl e)
      | (this, Inr row_end) \<Rightarrow>
          (case get this i j of
             None \<Rightarrow> (this, Inl OutOfModel)
           | Some x \<Rightarrow>
               (let newValue = callback x i j
                in if newValue \<noteq> 0
                   then (this\<lparr>V := V this @ [newValue], COL_INDEX := COL_INDEX this @ [j]\<rparr>,
                         Inr (row_end + 1))
                   else (this, Inr row_end))))"

definition map_grid_row ::
  "(int \<Rightarrow> nat \<Rightarrow> nat \<Rightarrow> int) \<Rightarrow> nat \<Rightarrow> matrix \<times> (error + nat) \<Rightarrow> nat
     \<Rightarrow> matrix \<times> (error + nat)" where
  "map_grid_row callback c st i =
     (case foldl (map_grid_cell callback i) st [0..<c] of
        (this, Inl e) \<Rightarrow> (this, Inl e)
      | (this, Inr row_end) \<Rightarrow>
          (this\<lparr>ROW_INDEX := ROW_INDEX this @ [row_end]\<rparr>, Inr row_end))"

definition map_matrix ::
  "(int \<Rightarrow> nat \<Rightarrow> nat \<Rightarrow> int) \<Rightarrow> bool \<Rightarrow> matrix \<Rightarrow> matrix \<times> (error + matrix)" where
  "map_matrix callback strict m =
     (if strict then
        (if \<not> in_model m then (m, Inl OutOfModel)
         else (case forEach_strict (map_strict_step callback) m ([], [], [0]) of
                 (cv, cc, cr) \<Rightarrow>
                   (m, Inr \<lparr>rows = rows m, cols = cols m, V = cv, COL_INDEX = cc,
                            ROW_INDEX = cr\<rparr>)))
      else
        (case foldl (map_grid_row callback (nat (cols m))) (m, Inr 0) [0..<nat (rows m)] of
           (this, Inl e) \<Rightarrow> (this, Inl e)
         | (this, Inr row_end) \<Rightarrow>
             (this, Inr \<lparr>rows = rows this, cols = cols this, V = [], COL_INDEX = [],
                         ROW_INDEX = [0]\<rparr>)))"

subsection \<open>Transpose\<close>

text \<open>\<open>T_V\<close> and \<open>T_COL_INDEX\<close> start empty and are written by index: a write beyond the
  end extends the array and leaves holes, here \<open>None\<close>.\<close>

definition js_write :: "'a option list \<Rightarrow> nat \<Rightarrow> 'a \<Rightarrow> 'a option list" where
  "js_write xs i x =
     (if i < length xs then xs[i := Some x]
      else xs @ replicate (i - length xs) None @ [Some x])"

definition count_step :: "nat list \<Rightarrow> nat \<Rightarrow> nat list" where
  "count_step t col = t[col + 1 := t ! (col + 1) + 1]"

definition prefix_step :: "nat list \<Rightarrow> nat \<Rightarrow> nat list" where
  "prefix_step t i = t[i := t ! i + t ! (i - 1)]"

definition scatter_step ::
  "matrix \<Rightarrow> nat \<Rightarrow> nat list \<times> int option list \<times> nat option list \<Rightarrow> nat
     \<Rightarrow> nat list \<times> int option list \<times> nat option list" where
  "scatter_step m i st j =
     (case st of (rowPtr, tv, tc) \<Rightarrow>
        (let col = COL_INDEX m ! j; pos = rowPtr ! col
         in (rowPtr[col := pos + 1], js_write tv pos (V m ! j), js_write tc pos i)))"

definition scatter_row ::
  "matrix \<Rightarrow> nat list \<times> int option list \<times> nat option list \<Rightarrow> nat
     \<Rightarrow> nat list \<times> int option list \<times> nat option list" where
  "scatter_row m st i = foldl (scatter_step m i) st (row_seg m i)"

text \<open>The pairs \<open>(i, j)\<close> of the second loop of \<open>transpose\<close>, in the order it visits them;
  the lemmas on the loop are stated on this list.\<close>

definition visited :: "matrix \<Rightarrow> (nat \<times> nat) list" where
  "visited m = concat (map (\<lambda>i. map (Pair i) (row_seg m i)) [0..<nat (rows m)])"

definition transpose_matrix :: "matrix \<Rightarrow> error + matrix" where
  "transpose_matrix m =
     (if cols m + 1 < 0 then Inl RangeError
      else if \<not> in_model m \<or> \<not> list_all (\<lambda>c. int c < cols m) (COL_INDEX m)
      then Inl OutOfModel
      else
        (let t0 = replicate (nat (cols m + 1)) 0;
             t1 = foldl count_step t0 (map (\<lambda>i. COL_INDEX m ! i) [0..<length (V m)]);
             T_ROW_INDEX = foldl prefix_step t1 [1..<nat (cols m) + 1]
         in case foldl (scatter_row m) (T_ROW_INDEX, [], []) [0..<nat (rows m)] of
              (rowPtr, tv, tc) \<Rightarrow>
                (case those tv of
                   None \<Rightarrow> Inl OutOfModel
                 | Some T_V \<Rightarrow>
                     (case those tc of
                        None \<Rightarrow> Inl OutOfModel
                      | Some T_COL_INDEX \<Rightarrow>
                          Inr \<lparr>rows = cols m, cols = rows m, V = T_V,
                               COL_INDEX = T_COL_INDEX, ROW_INDEX = T_ROW_INDEX\<rparr>))))"

subsection \<open>Addition, subtraction, Hadamard product, multiplication\<close>

text \<open>The accumulator is a \<open>Map\<close>: an association list in insertion order, where setting
  a key that is present keeps its place.\<close>

definition acc_get :: "(nat \<times> int) list \<Rightarrow> nat \<Rightarrow> int" where
  "acc_get acc col = (case map_of acc col of None \<Rightarrow> 0 | Some y \<Rightarrow> y)"

definition acc_add :: "(nat \<times> int) list \<Rightarrow> nat \<times> int \<Rightarrow> (nat \<times> int) list" where
  "acc_add acc e = (case e of (col, x) \<Rightarrow> AList.update col (acc_get acc col + x) acc)"

definition acc_sub :: "(nat \<times> int) list \<Rightarrow> nat \<times> int \<Rightarrow> (nat \<times> int) list" where
  "acc_sub acc e = (case e of (col, x) \<Rightarrow> AList.update col (acc_get acc col - x) acc)"

definition sortedEntries :: "(nat \<times> int) list \<Rightarrow> (nat \<times> int) list" where
  "sortedEntries acc = sort_key fst (filter (\<lambda>(col, val). val \<noteq> 0) acc)"

text \<open>Pushing the entries of one output row, then \<open>C_ROW_INDEX.push(C_V.length)\<close>.\<close>

definition push_row ::
  "int list \<times> nat list \<times> nat list \<Rightarrow> (nat \<times> int) list \<Rightarrow> int list \<times> nat list \<times> nat list" where
  "push_row st es =
     (case st of (cv, cc, cr) \<Rightarrow>
        (cv @ map snd es, cc @ map fst es, cr @ [length (cv @ map snd es)]))"

definition addition_row :: "matrix \<Rightarrow> matrix \<Rightarrow> nat \<Rightarrow> (nat \<times> int) list" where
  "addition_row a b i =
     sortedEntries (foldl acc_add (foldl acc_add [] (row_entries a i)) (row_entries b i))"

definition addition :: "matrix \<Rightarrow> matrix \<Rightarrow> error + matrix" where
  "addition a b =
     (if rows a \<noteq> rows b \<or> cols a \<noteq> cols b then Inl DimensionMismatch
      else if \<not> (in_model a \<and> in_model b) then Inl OutOfModel
      else (case foldl (\<lambda>st i. push_row st (addition_row a b i)) ([], [], [0])
                   [0..<nat (rows a)] of
              (cv, cc, cr) \<Rightarrow>
                Inr \<lparr>rows = rows a, cols = cols a, V = cv, COL_INDEX = cc, ROW_INDEX = cr\<rparr>))"

definition subtract_row :: "matrix \<Rightarrow> matrix \<Rightarrow> nat \<Rightarrow> (nat \<times> int) list" where
  "subtract_row a b i =
     sortedEntries (foldl acc_sub (foldl acc_add [] (row_entries a i)) (row_entries b i))"

definition subtract :: "matrix \<Rightarrow> matrix \<Rightarrow> error + matrix" where
  "subtract a b =
     (if rows a \<noteq> rows b \<or> cols a \<noteq> cols b then Inl DimensionMismatch
      else if \<not> (in_model a \<and> in_model b) then Inl OutOfModel
      else (case foldl (\<lambda>st i. push_row st (subtract_row a b i)) ([], [], [0])
                   [0..<nat (rows a)] of
              (cv, cc, cr) \<Rightarrow>
                Inr \<lparr>rows = rows a, cols = cols a, V = cv, COL_INDEX = cc, ROW_INDEX = cr\<rparr>))"

text \<open>The two-pointer loop of \<open>hadamard\<close> on one row; the arguments are the entries from
  \<open>aPtr\<close> to \<open>aEnd\<close> and from \<open>bPtr\<close> to \<open>bEnd\<close>.\<close>

fun hadamard_row :: "(nat \<times> int) list \<Rightarrow> (nat \<times> int) list \<Rightarrow> (nat \<times> int) list" where
  "hadamard_row [] bs = []"
| "hadamard_row (a # as) [] = []"
| "hadamard_row ((aCol, aVal) # as) ((bCol, bVal) # bs) =
     (if aCol = bCol then
        (let val = aVal * bVal
         in (if val \<noteq> 0 then [(aCol, val)] else []) @ hadamard_row as bs)
      else if aCol < bCol then hadamard_row as ((bCol, bVal) # bs)
      else hadamard_row ((aCol, aVal) # as) bs)"

definition hadamard :: "matrix \<Rightarrow> matrix \<Rightarrow> error + matrix" where
  "hadamard a b =
     (if rows a \<noteq> rows b \<or> cols a \<noteq> cols b then Inl DimensionMismatch
      else if \<not> (in_model a \<and> in_model b) then Inl OutOfModel
      else (case foldl (\<lambda>st i. push_row st (hadamard_row (row_entries a i) (row_entries b i)))
                   ([], [], [0]) [0..<nat (rows a)] of
              (cv, cc, cr) \<Rightarrow>
                Inr \<lparr>rows = rows a, cols = cols a, V = cv, COL_INDEX = cc, ROW_INDEX = cr\<rparr>))"

definition multiply_row :: "matrix \<Rightarrow> matrix \<Rightarrow> nat \<Rightarrow> (nat \<times> int) list" where
  "multiply_row a b i =
     sortedEntries
       (foldl (\<lambda>acc (k, aVal).
                 foldl (\<lambda>acc (j, bVal). acc_add acc (j, aVal * bVal)) acc (row_entries b k))
          [] (row_entries a i))"

definition multiply :: "matrix \<Rightarrow> matrix \<Rightarrow> error + matrix" where
  "multiply a b =
     (if cols a \<noteq> rows b then Inl DimensionMismatch
      else if \<not> (in_model a \<and> in_model b) then Inl OutOfModel
      else (case foldl (\<lambda>st i. push_row st (multiply_row a b i)) ([], [], [0])
                   [0..<length (ROW_INDEX a) - 1] of
              (cv, cc, cr) \<Rightarrow>
                Inr \<lparr>rows = rows a, cols = cols b, V = cv, COL_INDEX = cc, ROW_INDEX = cr\<rparr>))"

subsection \<open>Determinant\<close>

text \<open>\<open>csrMatrixSubmatrix\<close> is called by \<open>csrMatrixDeterminant\<close> only, which has checked
  \<open>in_model\<close>. The result keeps the receiver's \<open>rows\<close> and \<open>cols\<close>, swapped, as the source
  builds it with \<open>new Matrix(matrix.cols, matrix.rows)\<close>.\<close>

definition submatrix_row ::
  "matrix \<Rightarrow> nat \<Rightarrow> nat \<Rightarrow> int list \<times> nat list \<times> nat list \<Rightarrow> nat
     \<Rightarrow> int list \<times> nat list \<times> nat list" where
  "submatrix_row m excludeRow excludeCol st i =
     (case st of (subV, subCOL_INDEX, subROW_INDEX) \<Rightarrow>
        if i = excludeRow then st
        else
          (let es = filter (\<lambda>(col, v). col \<noteq> excludeCol) (row_entries m i)
           in (subV @ map snd es,
               subCOL_INDEX @ map (\<lambda>(col, v). if col < excludeCol then col else col - 1) es,
               subROW_INDEX @ [last subROW_INDEX + length es])))"

definition csrMatrixSubmatrix :: "matrix \<Rightarrow> nat \<Rightarrow> nat \<Rightarrow> matrix" where
  "csrMatrixSubmatrix m excludeRow excludeCol =
     (case foldl (submatrix_row m excludeRow excludeCol) ([], [], [0])
             [0..<length (ROW_INDEX m) - 1] of
        (subV, subCOL_INDEX, subROW_INDEX) \<Rightarrow>
          \<lparr>rows = cols m, cols = rows m, V = subV, COL_INDEX = subCOL_INDEX,
           ROW_INDEX = subROW_INDEX\<rparr>)"

text \<open>\<open>Math.max(...xs) + 1\<close>; \<open>None\<close> is the \<open>-Infinity\<close> of an empty list.\<close>

definition maxCol :: "nat list \<Rightarrow> int option" where
  "maxCol xs = (case xs of [] \<Rightarrow> None | x # r \<Rightarrow> Some (int (foldl max x r) + 1))"

text \<open>\<open>csrMatrixDeterminant\<close>. \<open>matrix.V[0] || 0\<close> is 0 when \<open>V\<close> is empty; an error of a
  recursive call ends the loop, as the exception does.\<close>

function csrMatrixDeterminant :: "matrix \<Rightarrow> error + int" where
  "csrMatrixDeterminant m =
     (let n = int (length (ROW_INDEX m)) - 1 in
      if n = 0 then Inr 1
      else if n = 1 then Inr (case V m of [] \<Rightarrow> 0 | v # _ \<Rightarrow> v)
      else if Some n \<noteq> maxCol (COL_INDEX m) then Inl NotSquareMatrix
      else if \<not> in_model m then Inl OutOfModel
      else
        foldl (\<lambda>acc i.
                 case acc of
                   Inl e \<Rightarrow> Inl e
                 | Inr det \<Rightarrow>
                     (let col = COL_INDEX m ! i; val = V m ! i
                      in case csrMatrixDeterminant (csrMatrixSubmatrix m 0 col) of
                           Inl e \<Rightarrow> Inl e
                         | Inr cofactor \<Rightarrow>
                             Inr (det + (if (0 + col) mod 2 = 0 then 1 else - 1) * val * cofactor)))
          (Inr 0) (row_seg m 0))"
  by pat_completeness auto
termination
proof (relation "measure (\<lambda>m. length (ROW_INDEX m))", goal_cases)
  case 1
  show ?case by simp
next
  case (2 m n acc i det col val)
  have len: "length (snd (snd (foldl (submatrix_row m 0 col) st ks))) =
               length (snd (snd st)) + length (filter (\<lambda>i. i \<noteq> 0) ks)" for st ks
    by (induction ks arbitrary: st) (auto simp: submatrix_row_def Let_def split: prod.splits)
  have cnt: "length (filter (\<lambda>i. i \<noteq> 0) [0..<k]) = k - 1" for k :: nat
    by (induction k) auto
  have "length (ROW_INDEX (csrMatrixSubmatrix m 0 col)) = 1 + (length (ROW_INDEX m) - 1 - 1)"
    using len[of "([], [], [0])" "[0..<length (ROW_INDEX m) - 1]"] cnt[of "length (ROW_INDEX m) - 1"]
    by (auto simp: csrMatrixSubmatrix_def split: prod.splits)
  moreover have "length (ROW_INDEX m) \<noteq> 0 \<and> length (ROW_INDEX m) \<noteq> 1"
    using 2 by (auto simp: maxCol_def split: list.splits)
  ultimately have "length (ROW_INDEX (csrMatrixSubmatrix m 0 col)) < length (ROW_INDEX m)"
    by arith
  then show ?case by simp
qed

declare csrMatrixDeterminant.simps [simp del]

definition determinant :: "matrix \<Rightarrow> error + int" where
  "determinant m = csrMatrixDeterminant m"

subsection \<open>The cofactor expansion of a dense matrix, as the specification words it\<close>

text \<open>Following the specification (section 4.5), on the dense projection: 1 for no rows,
  the value at (0, 0) for one row, and otherwise the sum over the non-zero entries of
  row 0 of \<open>sign * value * minor_determinant\<close>, the sign \<open>+1\<close> for an even column and
  \<open>-1\<close> for an odd one, the minor deleting row 0 and the entry's column.\<close>

definition delete_col :: "nat \<Rightarrow> int list \<Rightarrow> int list" where
  "delete_col col r = take col r @ drop (col + 1) r"

definition minor :: "int list list \<Rightarrow> nat \<Rightarrow> int list list" where
  "minor d col = map (delete_col col) (tl d)"

function laplace_det :: "int list list \<Rightarrow> int" where
  "laplace_det d =
     (if length d = 0 then 1
      else if length d = 1 then (case hd d of [] \<Rightarrow> 0 | x # _ \<Rightarrow> x)
      else sum_list
             (map (\<lambda>col.
                     if hd d ! col = 0 then 0
                     else (if even col then 1 else - 1) * (hd d ! col)
                            * laplace_det (minor d col))
                [0..<length (hd d)]))"
  by pat_completeness auto
termination
  by (relation "measure length") (auto simp: minor_def)

declare laplace_det.simps [simp del]

section \<open>Properties\<close>

subsection \<open>Indexing, and construction with no columns\<close>

lemma index_of_None_iff: "index_of xs x = None \<longleftrightarrow> x \<notin> set xs"
  by (induction xs) auto

lemma sparse_row_no_cols: "sparse_row d 0 (v, ci, ri, e) k = (v, ci, ri @ [e], e)"
  by (simp add: sparse_row_def)

lemma foldl_sparse_row_no_cols:
  "foldl (sparse_row d 0) (v, ci, ri, e) ks = (v, ci, ri @ replicate (length ks) e, e)"
proof (induction ks arbitrary: ri)
  case Nil
  show ?case by simp
next
  case (Cons k ks)
  show ?case
    by (simp only: foldl_Cons sparse_row_no_cols Cons.IH) (simp add: replicate_app_Cons_same)
qed

lemma nth_opt_Some [simp]: "i < length xs \<Longrightarrow> nth_opt xs i = Some (xs ! i)"
  by (simp add: nth_opt_def)

lemma nth_opt_None [simp]: "length xs \<le> i \<Longrightarrow> nth_opt xs i = None"
  by (simp add: nth_opt_def)

subsection \<open>The rows of a store\<close>

text \<open>Inside the model a row is the list of its (column, value) pairs, and \<open>get\<close> looks the column
  up in it.\<close>

lemma in_model_nth_le: "in_model m \<Longrightarrow> i < length (ROW_INDEX m) \<Longrightarrow> ROW_INDEX m ! i \<le> length (V m)"
  by (simp add: in_model_def list_all_length)

lemma in_model_length: "in_model m \<Longrightarrow> length (COL_INDEX m) = length (V m)"
  by (simp add: in_model_def)

lemma map_nth_upt_drop_take:
  "e \<le> length xs \<Longrightarrow> map (\<lambda>j. xs ! j) [s..<e] = take (e - s) (drop s xs)"
proof (rule nth_equalityI)
  assume "e \<le> length xs"
  then show "length (map ((!) xs) [s..<e]) = length (take (e - s) (drop s xs))" by simp
next
  fix i assume "e \<le> length xs" "i < length (map ((!) xs) [s..<e])"
  then show "map ((!) xs) [s..<e] ! i = take (e - s) (drop s xs) ! i" by simp
qed


lemma row_seg_in_range:
  "i + 1 < length (ROW_INDEX m) \<Longrightarrow> row_seg m i = [ROW_INDEX m ! i..<ROW_INDEX m ! (i + 1)]"
  by (simp add: row_seg_def)

lemma row_entries_fst:
  assumes "in_model m" "i + 1 < length (ROW_INDEX m)"
  shows "map fst (row_entries m i) = columns_of m i"
proof -
  have "ROW_INDEX m ! (i + 1) \<le> length (COL_INDEX m)"
    using assms in_model_nth_le[of m "i + 1"] by (simp add: in_model_length)
  then have "map (\<lambda>j. COL_INDEX m ! j) [ROW_INDEX m ! i..<ROW_INDEX m ! (i + 1)] =
        take (ROW_INDEX m ! (i + 1) - ROW_INDEX m ! i) (drop (ROW_INDEX m ! i) (COL_INDEX m))"
    by (rule map_nth_upt_drop_take)
  moreover have "map fst (row_entries m i) =
        map (\<lambda>j. COL_INDEX m ! j) [ROW_INDEX m ! i..<ROW_INDEX m ! (i + 1)]"
    using assms(2) by (simp add: row_entries_def row_seg_in_range)
  moreover have "columns_of m i =
        take (ROW_INDEX m ! (i + 1) - ROW_INDEX m ! i) (drop (ROW_INDEX m ! i) (COL_INDEX m))"
    using assms(2) by (simp add: columns_of_def js_slice_def Let_def)
  ultimately show ?thesis by simp
qed

lemma index_of_Some_nth:
  "index_of xs x = Some k \<Longrightarrow> k < length xs \<and> xs ! k = x"
  by (induction xs arbitrary: k) (auto split: if_splits)

lemma index_of_map_fst:
  "(case index_of (map fst es) c of None \<Rightarrow> (0::int) | Some k \<Rightarrow> snd (es ! k)) = acc_get es c"
  by (induction es) (auto simp: acc_get_def split: option.splits)

lemma get_row_entries:
  assumes "in_model m" "i + 1 < length (ROW_INDEX m)"
  shows "get m i c = Some (acc_get (row_entries m i) c)"
proof -
  let ?es = "row_entries m i"
  have cols: "columns_of m i = map fst ?es"
    using row_entries_fst[OF assms] by simp
  show ?thesis
  proof (cases "index_of (map fst ?es) c")
    case None
    then show ?thesis
      using index_of_map_fst[of ?es c] by (simp add: get_def cols)
  next
    case (Some k)
    then have k: "k < length ?es"
      using index_of_Some_nth[OF Some] by simp
    have len: "length ?es = length (row_seg m i)" by (simp add: row_entries_def)
    have seg: "row_seg m i = [ROW_INDEX m ! i..<ROW_INDEX m ! (i + 1)]"
      using assms by (simp add: row_seg_in_range)
    have lt: "ROW_INDEX m ! i + k < ROW_INDEX m ! (i + 1)"
      using k len seg by simp
    have "ROW_INDEX m ! (i + 1) \<le> length (V m)"
      using assms in_model_nth_le[of m "i + 1"] by simp
    then have inV: "ROW_INDEX m ! i + k < length (V m)" using lt by simp
    have "snd (?es ! k) = V m ! (ROW_INDEX m ! i + k)"
      using k len seg by (simp add: row_entries_def)
    then show ?thesis
      using Some index_of_map_fst[of ?es c] assms inV by (simp add: get_def cols)
  qed
qed


subsection \<open>Stores built row by row\<close>

text \<open>The operations that push one output row after the other build a store whose rows are
  the lists pushed and whose offsets are the running lengths.\<close>

lemma built_rows_inv:
  "foldl (\<lambda>st i. push_row st (f i)) ([], [], [0]) [0..<n] = (cv, cc, cr) \<Longrightarrow>
     length cr = n + 1 \<and> length cc = length cv \<and> cr ! 0 = 0 \<and> cr ! n = length cv
     \<and> (\<forall>r\<le>n. cr ! r \<le> length cv)
     \<and> (\<forall>r<n. cr ! (r + 1) = cr ! r + length (f r))
     \<and> (\<forall>r<n. \<forall>k<length (f r). cc ! (cr ! r + k) = fst (f r ! k)
                                  \<and> cv ! (cr ! r + k) = snd (f r ! k))"
proof (induction n arbitrary: cv cc cr)
  case 0
  then show ?case by auto
next
  case (Suc n)
  obtain cv0 cc0 cr0 where
    st0: "foldl (\<lambda>st i. push_row st (f i)) ([], [], [0]) [0..<n] = (cv0, cc0, cr0)"
    by (metis prod_cases3)
  note ih = Suc.IH[OF st0]
  from Suc.prems st0 have eqs:
    "cv = cv0 @ map snd (f n)" "cc = cc0 @ map fst (f n)" "cr = cr0 @ [length cv]"
    by (auto simp: push_row_def)
  have len0: "length cr0 = n + 1" "length cc0 = length cv0" using ih by simp_all
  have old: "cr ! r = cr0 ! r" if "r \<le> n" for r
    using that len0 by (simp add: eqs(3) nth_append)
  have new: "cr ! Suc n = length cv"
    using len0 by (simp add: eqs(3) nth_append)
  have lcv: "length cv = length cv0 + length (f n)" by (simp add: eqs(1))
  have bound0: "cr0 ! r \<le> length cv0" if "r \<le> n" for r using ih that by simp
  have a: "length cr = Suc n + 1" using len0 by (simp add: eqs(3))
  have b: "length cc = length cv" using len0 by (simp add: eqs)
  have c: "cr ! 0 = 0" using old[of 0] ih by simp
  have d: "\<forall>r\<le>Suc n. cr ! r \<le> length cv"
  proof (intro allI impI)
    fix r assume "r \<le> Suc n"
    show "cr ! r \<le> length cv"
    proof (cases "r = Suc n")
      case True then show ?thesis using new by simp
    next
      case False
      with \<open>r \<le> Suc n\<close> have "r \<le> n" by simp
      then show ?thesis using old[of r] bound0[of r] lcv by simp
    qed
  qed
  have e: "\<forall>r<Suc n. cr ! (r + 1) = cr ! r + length (f r)"
  proof (intro allI impI)
    fix r assume r: "r < Suc n"
    show "cr ! (r + 1) = cr ! r + length (f r)"
    proof (cases "r = n")
      case True
      have "cr0 ! n = length cv0" using ih by simp
      then show ?thesis using True new old[of n] lcv by simp
    next
      case False
      with r have "r < n" by simp
      then show ?thesis using old[of r] old[of "r + 1"] ih by simp
    qed
  qed
  have g: "\<forall>r<Suc n. \<forall>k<length (f r). cc ! (cr ! r + k) = fst (f r ! k)
                                  \<and> cv ! (cr ! r + k) = snd (f r ! k)"
  proof (intro allI impI)
    fix r k assume r: "r < Suc n" and k: "k < length (f r)"
    show "cc ! (cr ! r + k) = fst (f r ! k) \<and> cv ! (cr ! r + k) = snd (f r ! k)"
    proof (cases "r = n")
      case True
      have "cr ! r = length cv0" using True old[of n] ih by simp
      then show ?thesis using True k len0 by (simp add: eqs nth_append)
    next
      case False
      with r have rn: "r < n" by simp
      have "cr0 ! (r + 1) = cr0 ! r + length (f r)" using ih rn by simp
      moreover have "cr0 ! (r + 1) \<le> length cv0" using bound0[of "r + 1"] rn by simp
      ultimately have "cr0 ! r + k < length cv0" using k by simp
      moreover have "cc0 ! (cr0 ! r + k) = fst (f r ! k) \<and> cv0 ! (cr0 ! r + k) = snd (f r ! k)"
        using ih rn k by simp
      ultimately show ?thesis using old[of r] rn len0 by (simp add: eqs nth_append)
    qed
  qed
  from a b c new d e g show ?case by simp
qed

lemma built_rows_entries:
  assumes "foldl (\<lambda>st i. push_row st (f i)) ([], [], [0]) [0..<n] = (cv, cc, cr)"
    and "V m = cv" "COL_INDEX m = cc" "ROW_INDEX m = cr" "r < n"
  shows "row_entries m r = f r"
proof -
  note inv = built_rows_inv[OF assms(1)]
  have seg: "row_seg m r = [cr ! r..<cr ! r + length (f r)]"
    using inv assms by (simp add: row_seg_def)
  show ?thesis
  proof (rule nth_equalityI)
    show "length (row_entries m r) = length (f r)"
      by (simp add: row_entries_def seg)
  next
    fix k assume "k < length (row_entries m r)"
    then have k: "k < length (f r)" by (simp add: row_entries_def seg)
    then have "cc ! (cr ! r + k) = fst (f r ! k) \<and> cv ! (cr ! r + k) = snd (f r ! k)"
      using inv assms(5) by simp
    then show "row_entries m r ! k = f r ! k"
      using k assms by (simp add: row_entries_def seg prod_eq_iff)
  qed
qed

lemma built_rows_in_model:
  assumes "foldl (\<lambda>st i. push_row st (f i)) ([], [], [0]) [0..<n] = (cv, cc, cr)"
    and "V m = cv" "COL_INDEX m = cc" "ROW_INDEX m = cr"
  shows "in_model m" and "length (ROW_INDEX m) = n + 1"
proof -
  note inv = built_rows_inv[OF assms(1)]
  show "length (ROW_INDEX m) = n + 1" using inv assms by simp
  have "\<forall>r<length cr. cr ! r \<le> length cv" using inv by simp
  then show "in_model m" using inv assms by (simp add: in_model_def list_all_length)
qed

lemma sorted_nth_Suc:
  "(\<And>i. Suc i < length xs \<Longrightarrow> xs ! i \<le> xs ! Suc i) \<Longrightarrow> sorted (xs :: nat list)"
  by (simp add: sorted_iff_nth_Suc)

lemma built_rows_offsets:
  assumes "foldl (\<lambda>st i. push_row st (f i)) ([], [], [0]) [0..<n] = (cv, cc, cr)"
    and "V m = cv" "COL_INDEX m = cc" "ROW_INDEX m = cr"
  shows "inv_offsets m"
proof -
  note inv = built_rows_inv[OF assms(1)]
  have ne: "cr \<noteq> []" using inv by auto
  have "hd cr = cr ! 0" using ne by (simp add: hd_conv_nth)
  moreover have "last cr = cr ! n" using ne inv by (simp add: last_conv_nth)
  moreover have "sorted cr"
  proof (rule sorted_nth_Suc)
    fix i assume "Suc i < length cr"
    then have "i < n" using inv by simp
    then have "cr ! (i + 1) = cr ! i + length (f i)" using inv by simp
    then show "cr ! i \<le> cr ! Suc i" by simp
  qed
  ultimately show ?thesis using inv ne assms by (simp add: inv_offsets_def)
qed

lemma foldl_push_row_V:
  "fst (foldl (\<lambda>st i. push_row st (f i)) st ks) = fst st @ concat (map (\<lambda>i. map snd (f i)) ks)"
  by (induction ks arbitrary: st) (auto simp: push_row_def split: prod.splits)

subsection \<open>Accumulators\<close>

lemma sortedEntries_sorted:
  assumes "distinct (map fst acc)"
  shows "sorted_wrt (<) (map fst (sortedEntries acc))"
proof -
  have "distinct (map fst (filter (\<lambda>(col, val). val \<noteq> 0) acc))"
    using assms by (rule distinct_map_filter)
  then have "distinct (map fst (sortedEntries acc))"
    by (simp add: sortedEntries_def distinct_map)
  moreover have "sorted (map fst (sortedEntries acc))"
    by (simp add: sortedEntries_def)
  ultimately show ?thesis by (simp add: strict_sorted_iff)
qed

lemma sortedEntries_nonzero: "x \<in> set (sortedEntries acc) \<Longrightarrow> snd x \<noteq> 0"
  by (auto simp: sortedEntries_def)

lemma distinct_acc_add: "distinct (map fst acc) \<Longrightarrow> distinct (map fst (acc_add acc e))"
  by (cases e) (simp add: acc_add_def distinct_update)

lemma distinct_acc_sub: "distinct (map fst acc) \<Longrightarrow> distinct (map fst (acc_sub acc e))"
  by (cases e) (simp add: acc_sub_def distinct_update)

lemma distinct_foldl_acc_add:
  "distinct (map fst acc) \<Longrightarrow> distinct (map fst (foldl acc_add acc es))"
  by (induction es arbitrary: acc) (simp_all add: distinct_acc_add)

lemma distinct_foldl_acc_sub:
  "distinct (map fst acc) \<Longrightarrow> distinct (map fst (foldl acc_sub acc es))"
  by (induction es arbitrary: acc) (simp_all add: distinct_acc_sub)

lemma distinct_foldl_acc_scaled:
  "distinct (map fst acc) \<Longrightarrow>
     distinct (map fst (foldl (\<lambda>acc (j, bVal). acc_add acc (j, aVal * bVal)) acc es))"
  by (induction es arbitrary: acc) (auto simp: distinct_acc_add)

lemma distinct_foldl_acc_product:
  "distinct (map fst acc) \<Longrightarrow>
     distinct (map fst (foldl (\<lambda>acc (k, aVal).
        foldl (\<lambda>acc (j, bVal). acc_add acc (j, aVal * bVal)) acc (g k)) acc es))"
  by (induction es arbitrary: acc) (auto simp: distinct_foldl_acc_scaled)

lemma addition_row_ok:
  "sorted_wrt (<) (map fst (addition_row a b i))" "x \<in> set (addition_row a b i) \<Longrightarrow> snd x \<noteq> 0"
  by (simp_all add: addition_row_def sortedEntries_sorted sortedEntries_nonzero
        distinct_foldl_acc_add)

lemma subtract_row_ok:
  "sorted_wrt (<) (map fst (subtract_row a b i))" "x \<in> set (subtract_row a b i) \<Longrightarrow> snd x \<noteq> 0"
  by (simp_all add: subtract_row_def sortedEntries_sorted sortedEntries_nonzero
        distinct_foldl_acc_add distinct_foldl_acc_sub)

lemma multiply_row_ok:
  "sorted_wrt (<) (map fst (multiply_row a b i))" "x \<in> set (multiply_row a b i) \<Longrightarrow> snd x \<noteq> 0"
  by (simp_all add: multiply_row_def sortedEntries_sorted sortedEntries_nonzero
        distinct_foldl_acc_product)

lemma built_rows_invariants:
  assumes st: "foldl (\<lambda>st i. push_row st (f i)) ([], [], [0]) [0..<n] = (cv, cc, cr)"
    and m: "V m = cv" "COL_INDEX m = cc" "ROW_INDEX m = cr"
    and srt: "\<And>r. r < n \<Longrightarrow> sorted_wrt (<) (map fst (f r))"
    and nz: "\<And>r x. r < n \<Longrightarrow> x \<in> set (f r) \<Longrightarrow> snd x \<noteq> 0"
  shows "csr_invariants m"
proof -
  have im: "in_model m" and len: "length (ROW_INDEX m) = n + 1"
    using built_rows_in_model[OF st m] by simp_all
  have "sorted_wrt (<) (columns_of m r)" if "r < n" for r
  proof -
    have "columns_of m r = map fst (row_entries m r)"
      using row_entries_fst[OF im, of r] that len by simp
    then show ?thesis using built_rows_entries[OF st m that] srt[OF that] by simp
  qed
  then have 1: "inv_sorted m" by (simp add: inv_sorted_def len list_all_iff)
  have "cv = fst (foldl (\<lambda>st i. push_row st (f i)) ([], [], [0]) [0..<n])" by (simp add: st)
  then have "cv = concat (map (\<lambda>i. map snd (f i)) [0..<n])"
    by (simp add: foldl_push_row_V)
  then have 2: "inv_nonzero m" using nz by (auto simp: inv_nonzero_def m list_all_iff)
  from 1 2 built_rows_offsets[OF st m] show ?thesis by (simp add: csr_invariants_def)
qed

subsection \<open>The two-pointer loop\<close>

lemma hadamard_row_commute: "hadamard_row xs ys = hadamard_row ys xs"
proof (induction xs ys rule: hadamard_row.induct)
  case (1 bs)
  then show ?case by (cases bs) auto
next
  case (2 a as)
  then show ?case by simp
next
  case (3 aCol aVal as bCol bVal bs)
  then show ?case by (auto simp: Let_def mult.commute)
qed

lemma hadamard_commute:
  "rows a = rows b \<Longrightarrow> cols a = cols b \<Longrightarrow> hadamard a b = hadamard b a"
  by (simp add: hadamard_def hadamard_row_commute [of "row_entries a _" "row_entries b _"]
      conj_commute)


subsection \<open>Compressing a dense array\<close>

lemma foldl_sparse_cell:
  "foldl (sparse_cell d i) (v, ci, e) js =
     (v @ map snd (List.map_filter (\<lambda>j. map_option (Pair j) (data_cell d i j)) js),
      ci @ map fst (List.map_filter (\<lambda>j. map_option (Pair j) (data_cell d i j)) js),
      e + length (List.map_filter (\<lambda>j. map_option (Pair j) (data_cell d i j)) js))"
proof (induction js arbitrary: v ci e)
  case Nil
  show ?case by (simp add: List.map_filter_simps)
next
  case (Cons j js)
  show ?case
  proof (cases "data_cell d i j")
    case None
    then have "sparse_cell d i (v, ci, e) j = (v, ci, e)" by (simp add: sparse_cell_def)
    then show ?thesis using None Cons.IH by (simp add: List.map_filter_simps)
  next
    case (Some x)
    then have "sparse_cell d i (v, ci, e) j = (v @ [x], ci @ [j], e + 1)"
      by (simp add: sparse_cell_def)
    then show ?thesis using Some Cons.IH by (simp add: List.map_filter_simps)
  qed
qed

lemma sparse_row_push_row:
  "sparse_row d c (v, ci, ri, length v) i =
     (case push_row (v, ci, ri)
             (List.map_filter (\<lambda>j. map_option (Pair j) (data_cell d i j)) [0..<c]) of
        (v', ci', ri') \<Rightarrow> (v', ci', ri', length v'))"
  by (simp add: sparse_row_def foldl_sparse_cell push_row_def)

lemma foldl_sparse_row_push_row:
  "foldl (sparse_row d c) (v, ci, ri, length v) ks =
     (case foldl (\<lambda>st i. push_row st
                   (List.map_filter (\<lambda>j. map_option (Pair j) (data_cell d i j)) [0..<c]))
             (v, ci, ri) ks of
        (v', ci', ri') \<Rightarrow> (v', ci', ri', length v'))"
proof (induction ks arbitrary: v ci ri)
  case Nil
  show ?case by simp
next
  case (Cons k ks)
  obtain v1 ci1 ri1 where
    p: "push_row (v, ci, ri)
          (List.map_filter (\<lambda>j. map_option (Pair j) (data_cell d k j)) [0..<c]) = (v1, ci1, ri1)"
    by (metis prod_cases3)
  have "sparse_row d c (v, ci, ri, length v) k = (v1, ci1, ri1, length v1)"
    by (simp add: sparse_row_push_row p)
  then show ?case using Cons.IH[of v1 ci1 ri1] p by simp
qed

lemma acc_get_map_filter:
  "acc_get (List.map_filter (\<lambda>j. map_option (Pair j) (g j)) js) j =
     (if j \<in> set js then (case g j of None \<Rightarrow> 0 | Some x \<Rightarrow> x) else 0)"
proof (induction js)
  case Nil
  show ?case by (simp add: List.map_filter_simps acc_get_def)
next
  case (Cons k ks)
  then show ?case
    by (cases "g k") (auto simp: List.map_filter_simps acc_get_def)
qed

lemma data_cell_value:
  "(case data_cell d i j of None \<Rightarrow> 0 | Some x \<Rightarrow> x) =
     (case nth_opt d i of
        Some (Some row) \<Rightarrow> (case nth_opt row j of Some (Num x) \<Rightarrow> x | _ \<Rightarrow> 0)
      | _ \<Rightarrow> 0)"
  by (simp add: data_cell_def split: option.splits cell.splits)

subsection \<open>The offsets of the transpose\<close>

lemma length_foldl_count_step [simp]: "length (foldl count_step t ks) = length t"
  by (induction ks arbitrary: t) (simp_all add: count_step_def)

lemma foldl_count_step_nth:
  "\<forall>k\<in>set ks. k + 1 < length t \<Longrightarrow> j < length t \<Longrightarrow>
     foldl count_step t ks ! j = t ! j + length (filter (\<lambda>k. k + 1 = j) ks)"
proof (induction ks arbitrary: t)
  case Nil
  show ?case by simp
next
  case (Cons k ks)
  have "foldl count_step (count_step t k) ks ! j =
          count_step t k ! j + length (filter (\<lambda>k. k + 1 = j) ks)"
    using Cons.prems by (intro Cons.IH) (simp_all add: count_step_def)
  moreover have "count_step t k ! j = t ! j + (if k + 1 = j then 1 else 0)"
    using Cons.prems by (auto simp: count_step_def)
  ultimately show ?case by simp
qed

lemma length_foldl_prefix_step [simp]: "length (foldl prefix_step t ks) = length t"
  by (induction ks arbitrary: t) (simp_all add: prefix_step_def)

lemma foldl_prefix_step_nth:
  "m \<le> length t \<Longrightarrow> j < length t \<Longrightarrow>
     foldl prefix_step t [1..<m] ! j = (if j < m then sum_list (take (j + 1) t) else t ! j)"
proof (induction m arbitrary: j)
  case 0
  then show ?case by simp
next
  case (Suc m)
  show ?case
  proof (cases "m = 0")
    case True
    then show ?thesis using Suc.prems by (cases t) auto
  next
    case False
    then have upt: "[1..<Suc m] = [1..<m] @ [m]" by simp
    let ?t' = "foldl prefix_step t [1..<m]"
    have m: "m < length t" "m - 1 < length t" using Suc.prems by simp_all
    have tm: "?t' ! m = t ! m" using Suc.IH[of m] m by simp
    have tm1: "?t' ! (m - 1) = sum_list (take m t)"
      using Suc.IH[of "m - 1"] m False by simp
    have new: "foldl prefix_step t [1..<Suc m] = ?t'[m := ?t' ! m + ?t' ! (m - 1)]"
      by (simp only: upt foldl_append foldl_Cons foldl_Nil prefix_step_def)
    show ?thesis
    proof (cases "j = m")
      case True
      have "sum_list (take (m + 1) t) = sum_list (take m t) + t ! m"
        using m by (simp add: take_Suc_conv_app_nth)
      then show ?thesis using True new tm tm1 m by simp
    next
      case False
      then show ?thesis using new Suc.IH[of j] Suc.prems by auto
    qed
  qed
qed

lemma length_filter_less_Suc:
  "length (filter (\<lambda>k. k < Suc c) ks) =
     length (filter (\<lambda>k. k < c) ks) + length (filter (\<lambda>k. k = c) (ks :: nat list))"
  by (induction ks) auto

lemma sum_counts_start:
  assumes "\<forall>j<length t. t ! j = length (filter (\<lambda>k. k + 1 = j) ks)" "c < length t"
  shows "sum_list (take (c + 1) t) = length (filter (\<lambda>k. k < c) ks)"
  using assms(2)
proof (induction c)
  case 0
  then have "take 1 t = [t ! 0]" by (cases t) auto
  then show ?case using assms(1) 0 by simp
next
  case (Suc c)
  have "take (Suc c + 1) t = take (c + 1) t @ [t ! (c + 1)]"
    using Suc.prems by (simp add: take_Suc_conv_app_nth)
  moreover have "t ! (c + 1) = length (filter (\<lambda>k. k = c) ks)"
    using assms(1) Suc.prems by simp
  ultimately show ?case using Suc by (simp add: length_filter_less_Suc)
qed

text \<open>Entry \<open>c\<close> of the new offsets counts the stored columns below \<open>c\<close>.\<close>

lemma transpose_offsets:
  assumes "\<forall>k\<in>set ks. k < n"
  shows "length (foldl prefix_step (foldl count_step (replicate (n + 1) 0) ks) [1..<n + 1]) = n + 1"
    and "c \<le> n \<Longrightarrow>
           foldl prefix_step (foldl count_step (replicate (n + 1) 0) ks) [1..<n + 1] ! c
             = length (filter (\<lambda>k. k < c) ks)"
proof -
  let ?t1 = "foldl count_step (replicate (n + 1) 0) ks"
  show "length (foldl prefix_step ?t1 [1..<n + 1]) = n + 1" by simp
  have t1: "\<forall>j<length ?t1. ?t1 ! j = length (filter (\<lambda>k. k + 1 = j) ks)"
  proof (intro allI impI)
    fix j assume "j < length ?t1"
    then have j: "j < length (replicate (n + 1) (0::nat))" by simp
    have "\<forall>k\<in>set ks. k + 1 < length (replicate (n + 1) (0::nat))" using assms by simp
    from foldl_count_step_nth[OF this j]
    have "?t1 ! j = replicate (n + 1) 0 ! j + length (filter (\<lambda>k. k + 1 = j) ks)" .
    moreover have "replicate (n + 1) (0::nat) ! j = 0" using j by (simp only: nth_replicate length_replicate)
    ultimately show "?t1 ! j = length (filter (\<lambda>k. k + 1 = j) ks)" by simp
  qed
  assume c: "c \<le> n"
  then have "foldl prefix_step ?t1 [1..<n + 1] ! c = sum_list (take (c + 1) ?t1)"
    using foldl_prefix_step_nth[of "n + 1" ?t1 c] by simp
  also have "\<dots> = length (filter (\<lambda>k. k < c) ks)"
    using c by (intro sum_counts_start[OF t1]) simp
  finally show "foldl prefix_step ?t1 [1..<n + 1] ! c = length (filter (\<lambda>k. k < c) ks)" .
qed

subsection \<open>The scatter loop of the transpose\<close>

text \<open>The loop is a stable counting sort by column: the \<open>k\<close>-th visited entry of column
  \<open>c\<close> lands at offset \<open>c\<close> plus \<open>k\<close>. The invariant is stated for a prefix \<open>P\<close> of the
  visited pairs.\<close>

lemma length_js_write: "length (js_write xs i x) = max (length xs) (i + 1)"
  by (simp add: js_write_def)

lemma js_write_nth_same: "js_write xs i x ! i = Some x"
  by (simp add: js_write_def nth_append)

lemma js_write_nth_other: "p \<noteq> i \<Longrightarrow> p < length xs \<Longrightarrow> js_write xs i x ! p = xs ! p"
  by (simp add: js_write_def nth_append)

lemma length_filter_key_less_Suc:
  "length (filter (\<lambda>p. f p < Suc c) xs) =
     length (filter (\<lambda>p. f p < c) xs) + length (filter (\<lambda>p. f p = (c::nat)) xs)"
  by (induction xs) auto

lemma length_filter_key_less_mono:
  "c \<le> c' \<Longrightarrow> length (filter (\<lambda>p. f p < c) xs) \<le> length (filter (\<lambda>p. f p < (c'::nat)) xs)"
  by (induction xs) auto

lemma length_filter_key_less_next:
  assumes "c < (c'::nat)"
  shows "length (filter (\<lambda>p. f p < c) xs) + length (filter (\<lambda>p. f p = c) xs)
           \<le> length (filter (\<lambda>p. f p < c') xs)"
proof -
  have "length (filter (\<lambda>p. f p < Suc c) xs) \<le> length (filter (\<lambda>p. f p < c') xs)"
    using assms by (intro length_filter_key_less_mono) simp
  then show ?thesis by (simp add: length_filter_key_less_Suc)
qed

lemma scatter_inv:
  fixes m :: matrix and L :: "(nat \<times> nat) list"
  defines "key \<equiv> \<lambda>p. COL_INDEX m ! snd p"
  defines "S \<equiv> \<lambda>c. length (filter (\<lambda>p. key p < c) L)"
  assumes keys: "\<forall>p\<in>set L. key p < C"
    and ptr0: "C \<le> length ptr0" "\<forall>c<C. ptr0 ! c = S c"
  shows "L = P @ Q \<Longrightarrow>
         foldl (\<lambda>st (i, j). scatter_step m i st j) (ptr0, [], []) P = (ptr, tv, tc) \<Longrightarrow>
           length ptr = length ptr0
           \<and> (\<forall>c<C. ptr ! c = S c + length (filter (\<lambda>p. key p = c) P))
           \<and> length tv \<le> length L \<and> length tc \<le> length L
           \<and> (\<forall>c<C. \<forall>k<length (filter (\<lambda>p. key p = c) P).
                 S c + k < length tv \<and> S c + k < length tc
                 \<and> tv ! (S c + k) = Some (V m ! snd (filter (\<lambda>p. key p = c) P ! k))
                 \<and> tc ! (S c + k) = Some (fst (filter (\<lambda>p. key p = c) P ! k)))"
proof (induction P arbitrary: Q ptr tv tc rule: rev_induct)
  case Nil
  then show ?case using ptr0 by auto
next
  case (snoc e P)
  obtain i j where e: "e = (i, j)" by (cases e)
  obtain ptr1 tv1 tc1 where
    st1: "foldl (\<lambda>st (i, j). scatter_step m i st j) (ptr0, [], []) P = (ptr1, tv1, tc1)"
    by (metis prod_cases3)
  have L: "L = P @ e # Q" using snoc.prems(1) by simp
  note ih = snoc.IH[OF L st1]
  define c where "c = key e"
  define pos where "pos = ptr1 ! c"
  have cC: "c < C" using keys L by (simp add: c_def)
  have cj: "COL_INDEX m ! j = c" by (simp add: c_def key_def e)
  have now: "ptr = ptr1[c := pos + 1]" "tv = js_write tv1 pos (V m ! j)"
    "tc = js_write tc1 pos i"
    using snoc.prems(2) st1 by (simp_all add: e scatter_step_def Let_def cj pos_def)
  let ?cntP = "\<lambda>c. length (filter (\<lambda>p. key p = c) P)"
  have pos: "pos = S c + ?cntP c" using ih cC by (simp add: pos_def)
  have cntL: "length (filter (\<lambda>p. key p = c') L) = ?cntP c' + length (filter (\<lambda>p. key p = c') (e # Q))"
    for c' by (simp add: L)
  have le_cnt: "?cntP c' \<le> length (filter (\<lambda>p. key p = c') L)" for c'
    by (simp add: cntL)
  have lt_cnt: "?cntP c < length (filter (\<lambda>p. key p = c) L)"
    by (simp add: cntL c_def)
  have S_next: "S c' + length (filter (\<lambda>p. key p = c') L) \<le> S c''" if "c' < c''" for c' c''
    unfolding S_def using that by (rule length_filter_key_less_next)
  have S_le: "S c' \<le> length L" for c' by (simp add: S_def)
  have "S c + length (filter (\<lambda>p. key p = c) L) \<le> S (Suc c)" by (rule S_next) simp
  then have pos_lt: "pos < length L" using lt_cnt S_le[of "Suc c"] pos by simp
  have len: "length ptr = length ptr0" using ih now by simp
  have ptr: "\<forall>c'<C. ptr ! c' = S c' + length (filter (\<lambda>p. key p = c') (P @ [e]))"
  proof (intro allI impI)
    fix c' assume c': "c' < C"
    have "c' < length ptr1" using ih c' ptr0(1) by simp
    then show "ptr ! c' = S c' + length (filter (\<lambda>p. key p = c') (P @ [e]))"
      using ih c' pos now(1) by (auto simp: c_def nth_list_update)
  qed
  have lens: "length tv \<le> length L" "length tc \<le> length L"
    using ih pos_lt by (simp_all add: now length_js_write)
  have cells: "\<forall>c'<C. \<forall>k<length (filter (\<lambda>p. key p = c') (P @ [e])).
                 S c' + k < length tv \<and> S c' + k < length tc
                 \<and> tv ! (S c' + k) = Some (V m ! snd (filter (\<lambda>p. key p = c') (P @ [e]) ! k))
                 \<and> tc ! (S c' + k) = Some (fst (filter (\<lambda>p. key p = c') (P @ [e]) ! k))"
  proof (intro allI impI)
    fix c' k assume c': "c' < C" and k: "k < length (filter (\<lambda>p. key p = c') (P @ [e]))"
    show "S c' + k < length tv \<and> S c' + k < length tc
                 \<and> tv ! (S c' + k) = Some (V m ! snd (filter (\<lambda>p. key p = c') (P @ [e]) ! k))
                 \<and> tc ! (S c' + k) = Some (fst (filter (\<lambda>p. key p = c') (P @ [e]) ! k))"
    proof (cases "c' = c \<and> k = ?cntP c")
      case True
      then have "S c' + k = pos" using pos by simp
      moreover have "filter (\<lambda>p. key p = c') (P @ [e]) ! k = e"
        using True by (simp add: c_def nth_append)
      moreover have "pos < length tv" "pos < length tc"
        by (simp_all add: now length_js_write less_max_iff_disj)
      moreover have "tv ! pos = Some (V m ! j)" "tc ! pos = Some i"
        by (simp_all add: now js_write_nth_same)
      ultimately show ?thesis
        by (simp add: e)
    next
      case False
      then have kP: "k < ?cntP c'" using k by (auto simp: c_def split: if_splits)
      then have old: "S c' + k < length tv1" "S c' + k < length tc1"
        "tv1 ! (S c' + k) = Some (V m ! snd (filter (\<lambda>p. key p = c') P ! k))"
        "tc1 ! (S c' + k) = Some (fst (filter (\<lambda>p. key p = c') P ! k))"
        using ih c' by simp_all
      have ne: "S c' + k \<noteq> pos"
      proof (cases "c' = c")
        case True
        then show ?thesis using False pos by simp
      next
        case neq: False
        show ?thesis
        proof (cases "c' < c")
          case True
          have "S c' + k < S c' + length (filter (\<lambda>p. key p = c') L)"
            using kP le_cnt[of c'] by simp
          also have "\<dots> \<le> S c" using True by (rule S_next)
          finally show ?thesis using pos by simp
        next
          case False
          then have "c < c'" using neq by simp
          then have "S c + length (filter (\<lambda>p. key p = c) L) \<le> S c'" by (rule S_next)
          then show ?thesis using pos lt_cnt by simp
        qed
      qed
      have "filter (\<lambda>p. key p = c') (P @ [e]) ! k = filter (\<lambda>p. key p = c') P ! k"
        using kP by (simp add: nth_append)
      moreover have "S c' + k < length tv" "S c' + k < length tc"
        using old(1,2) by (simp_all add: now length_js_write less_max_iff_disj)
      moreover have "tv ! (S c' + k) = tv1 ! (S c' + k)" "tc ! (S c' + k) = tc1 ! (S c' + k)"
        using old(1,2) ne by (simp_all add: now js_write_nth_other)
      ultimately show ?thesis
        using old(3,4) by simp
    qed
  qed
  from len ptr lens cells show ?case by simp
qed

lemma those_all_Some:
  "\<forall>p<length xs. xs ! p \<noteq> None \<Longrightarrow> those xs = Some (map the xs)"
proof (induction xs)
  case Nil
  show ?case by simp
next
  case (Cons x xs)
  have "x \<noteq> None" using Cons.prems by (auto dest: spec[of _ 0])
  moreover have "\<forall>p<length xs. xs ! p \<noteq> None"
    using Cons.prems by (auto dest: spec[of _ "Suc _"])
  ultimately show ?case using Cons.IH by auto
qed

lemma find_bucket:
  "p < length (filter (\<lambda>q. f q < C) xs) \<Longrightarrow>
     \<exists>c<C. \<exists>k<length (filter (\<lambda>q. f q = c) xs).
        p = length (filter (\<lambda>q. f q < (c::nat)) xs) + k"
proof (induction C)
  case 0
  then show ?case by simp
next
  case (Suc C)
  show ?case
  proof (cases "p < length (filter (\<lambda>q. f q < C) xs)")
    case True
    then obtain c k where "c < C" "k < length (filter (\<lambda>q. f q = c) xs)"
      "p = length (filter (\<lambda>q. f q < c) xs) + k"
      using Suc.IH by blast
    then show ?thesis using less_Suc_eq by blast
  next
    case False
    let ?k = "p - length (filter (\<lambda>q. f q < C) xs)"
    have "?k < length (filter (\<lambda>q. f q = C) xs)"
      using Suc.prems False by (simp add: length_filter_key_less_Suc)
    moreover have "p = length (filter (\<lambda>q. f q < C) xs) + ?k" using False by simp
    ultimately show ?thesis by blast
  qed
qed

lemma scatter_result:
  fixes m :: matrix and L :: "(nat \<times> nat) list"
  defines "key \<equiv> \<lambda>p. COL_INDEX m ! snd p"
  defines "S \<equiv> \<lambda>c. length (filter (\<lambda>p. key p < c) L)"
  assumes keys: "\<forall>p\<in>set L. key p < C"
    and ptr0: "C \<le> length ptr0" "\<forall>c<C. ptr0 ! c = S c"
    and run: "foldl (\<lambda>st (i, j). scatter_step m i st j) (ptr0, [], []) L = (ptr, tv, tc)"
  shows "\<exists>tV tC. those tv = Some tV \<and> those tc = Some tC
           \<and> length tV = length L \<and> length tC = length L
           \<and> (\<forall>c<C. \<forall>k<length (filter (\<lambda>p. key p = c) L).
                 tV ! (S c + k) = V m ! snd (filter (\<lambda>p. key p = c) L ! k)
                 \<and> tC ! (S c + k) = fst (filter (\<lambda>p. key p = c) L ! k))"
proof -
  have L: "L = L @ []" by simp
  have inv: "length tv \<le> length L \<and> length tc \<le> length L
           \<and> (\<forall>c<C. \<forall>k<length (filter (\<lambda>p. key p = c) L).
                 S c + k < length tv \<and> S c + k < length tc
                 \<and> tv ! (S c + k) = Some (V m ! snd (filter (\<lambda>p. key p = c) L ! k))
                 \<and> tc ! (S c + k) = Some (fst (filter (\<lambda>p. key p = c) L ! k)))"
    using scatter_inv[of L m C ptr0 L "[]" ptr tv tc] keys ptr0 run
    unfolding key_def S_def by simp
  have all: "filter (\<lambda>p. key p < C) L = L" using keys by (simp add: filter_id_conv)
  have bucket: "\<exists>c<C. \<exists>k<length (filter (\<lambda>q. key q = c) L). p = S c + k" if "p < length L" for p
    using find_bucket[of p key C L] that all unfolding S_def by simp
  have filled: "p < length tv \<and> p < length tc \<and> tv ! p \<noteq> None \<and> tc ! p \<noteq> None"
    if "p < length L" for p
    using bucket[OF that] inv by auto
  have "length L \<le> length tv \<and> length L \<le> length tc"
  proof (cases "length L")
    case 0
    then show ?thesis by simp
  next
    case (Suc n)
    then show ?thesis using filled[of n] by simp
  qed
  then have lens: "length tv = length L" "length tc = length L" using inv by simp_all
  have tv: "those tv = Some (map the tv)" and tc: "those tc = Some (map the tc)"
    using filled lens by (simp_all add: those_all_Some)
  have "\<forall>c<C. \<forall>k<length (filter (\<lambda>p. key p = c) L).
                 map the tv ! (S c + k) = V m ! snd (filter (\<lambda>p. key p = c) L ! k)
                 \<and> map the tc ! (S c + k) = fst (filter (\<lambda>p. key p = c) L ! k)"
    using inv by simp
  then show ?thesis using tv tc lens by simp
qed

lemma foldl_nested_flatten:
  "foldl (\<lambda>st i. foldl (g i) st (h i)) st ks =
     foldl (\<lambda>st (i, j). g i st j) st (concat (map (\<lambda>i. map (Pair i) (h i)) ks))"
proof (induction ks arbitrary: st)
  case Nil
  show ?case by simp
next
  case (Cons k ks)
  have "foldl (g k) st js = foldl (\<lambda>st (i, j). g i st j) st (map (Pair k) js)" for js st
    by (induction js arbitrary: st) simp_all
  then show ?case using Cons.IH by simp
qed

lemma concat_upt_offsets:
  "sorted ri \<Longrightarrow> r < length ri \<Longrightarrow>
     concat (map (\<lambda>i. [ri ! i..<ri ! (i + 1)]) [0..<r]) = [ri ! 0..<ri ! r]"
proof (induction r)
  case 0
  show ?case by simp
next
  case (Suc r)
  have "ri ! 0 \<le> ri ! r" "ri ! r \<le> ri ! Suc r"
    using Suc.prems by (simp_all add: sorted_iff_nth_mono)
  then have "[ri ! 0..<ri ! r] @ [ri ! r..<ri ! Suc r] = [ri ! 0..<ri ! Suc r]"
    by (metis le_Suc_ex upt_add_eq_append)
  then show ?case using Suc by simp
qed

subsection \<open>The transpose of a store that satisfies the invariants\<close>

lemma csr_inv_facts:
  assumes "csr_inv m"
  shows "in_model m" "0 \<le> rows m" "0 \<le> cols m"
    "length (ROW_INDEX m) = nat (rows m) + 1"
    "length (COL_INDEX m) = length (V m)"
    "\<forall>c\<in>set (COL_INDEX m). c < nat (cols m)"
    "sorted (ROW_INDEX m)" "ROW_INDEX m ! 0 = 0"
    "ROW_INDEX m ! nat (rows m) = length (V m)"
    "inv_sorted m" "inv_nonzero m"
proof -
  have sh: "csr_shape m" and off: "inv_offsets m"
    and s: "inv_sorted m" and nz: "inv_nonzero m"
    using assms by (simp_all add: csr_inv_def csr_invariants_def)
  show "0 \<le> rows m" "0 \<le> cols m" "length (ROW_INDEX m) = nat (rows m) + 1"
    "length (COL_INDEX m) = length (V m)"
    using sh by (simp_all add: csr_shape_def)
  show "\<forall>c\<in>set (COL_INDEX m). c < nat (cols m)"
    using sh by (auto simp: csr_shape_def list_all_iff)
  show "inv_sorted m" "inv_nonzero m" by (rule s, rule nz)
  show srt: "sorted (ROW_INDEX m)" using off by (simp add: inv_offsets_def)
  have ne: "ROW_INDEX m \<noteq> []" using off by (simp add: inv_offsets_def)
  show "ROW_INDEX m ! 0 = 0" using off ne by (simp add: inv_offsets_def hd_conv_nth)
  have len: "length (ROW_INDEX m) = nat (rows m) + 1" using sh by (simp add: csr_shape_def)
  show last: "ROW_INDEX m ! nat (rows m) = length (V m)"
    using off ne len by (simp add: inv_offsets_def last_conv_nth)
  have "\<forall>x\<in>set (ROW_INDEX m). x \<le> length (V m)"
  proof
    fix x assume "x \<in> set (ROW_INDEX m)"
    then obtain i where "i < length (ROW_INDEX m)" "x = ROW_INDEX m ! i"
      by (auto simp: in_set_conv_nth)
    then show "x \<le> length (V m)"
      using sorted_nth_mono[OF srt, of i "nat (rows m)"] len last by simp
  qed
  then show "in_model m" using sh by (simp add: in_model_def csr_shape_def list_all_iff)
qed

lemma visited_snd:
  assumes "csr_inv m"
  shows "map snd (visited m) = [0..<length (V m)]"
proof -
  note f = csr_inv_facts[OF assms]
  have "map snd (visited m) = concat (map (\<lambda>i. row_seg m i) [0..<nat (rows m)])"
    by (simp add: visited_def map_concat comp_def)
  also have "\<dots> = concat (map (\<lambda>i. [ROW_INDEX m ! i..<ROW_INDEX m ! (i + 1)]) [0..<nat (rows m)])"
    using f(4) by (intro arg_cong[where f = concat] map_cong) (simp_all add: row_seg_in_range)
  also have "\<dots> = [ROW_INDEX m ! 0..<ROW_INDEX m ! nat (rows m)]"
    using f(4,7) by (intro concat_upt_offsets) simp_all
  finally show ?thesis using f(8,9) by simp
qed

lemma visited_keys:
  assumes "csr_inv m"
  shows "map (\<lambda>p. COL_INDEX m ! snd p) (visited m) = COL_INDEX m"
proof -
  have "map (\<lambda>p. COL_INDEX m ! snd p) (visited m) = map (\<lambda>j. COL_INDEX m ! j) (map snd (visited m))"
    by (simp add: comp_def)
  also have "\<dots> = COL_INDEX m"
    using csr_inv_facts(5)[OF assms] by (simp only: visited_snd[OF assms]) (metis map_nth)
  finally show ?thesis .
qed

lemma filter_keys_length:
  "length (filter (\<lambda>p. P (f p)) xs) = length (filter P (map f xs))"
  by (induction xs) auto

lemma bucket_values_subset:
  fixes key :: "'a \<Rightarrow> nat"
  assumes keys: "\<forall>p\<in>set L. key p < C" and len: "length xs = length L"
    and cells: "\<forall>c<C. \<forall>k<length (filter (\<lambda>p. key p = c) L).
                  xs ! (length (filter (\<lambda>p. key p < c) L) + k) = g (filter (\<lambda>p. key p = c) L ! k)"
  shows "set xs \<subseteq> g ` set L"
proof
  fix x assume "x \<in> set xs"
  then obtain p where p: "p < length L" "x = xs ! p" using len by (auto simp: in_set_conv_nth)
  have "filter (\<lambda>p. key p < C) L = L" using keys by (simp add: filter_id_conv)
  then obtain c k where ck: "c < C" "k < length (filter (\<lambda>q. key q = c) L)"
    "p = length (filter (\<lambda>q. key q < c) L) + k"
    using find_bucket[of p key C L] p(1) by auto
  then have "x = g (filter (\<lambda>p. key p = c) L ! k)" using cells p(2) by simp
  moreover have "filter (\<lambda>p. key p = c) L ! k \<in> set L"
    using ck(2) nth_mem[of k "filter (\<lambda>p. key p = c) L"] by auto
  ultimately show "x \<in> g ` set L" by blast
qed

lemma transpose_rows:
  assumes inv: "csr_inv m"
  shows "\<exists>t. transpose_matrix m = Inr t \<and> rows t = cols m \<and> cols t = rows m
           \<and> in_model t \<and> length (ROW_INDEX t) = nat (cols m) + 1
           \<and> length (V t) = length (V m) \<and> length (COL_INDEX t) = length (V m)
           \<and> (\<forall>c\<le>nat (cols m). ROW_INDEX t ! c = length (filter (\<lambda>k. k < c) (COL_INDEX m)))
           \<and> (\<forall>c<nat (cols m). row_entries t c =
                 map (\<lambda>p. (fst p, V m ! snd p))
                   (filter (\<lambda>p. COL_INDEX m ! snd p = c) (visited m)))
           \<and> set (COL_INDEX t) \<subseteq> fst ` set (visited m)
           \<and> set (V t) \<subseteq> (\<lambda>p. V m ! snd p) ` set (visited m)"
proof -
  note f = csr_inv_facts[OF inv]
  define C where "C = nat (cols m)"
  define L where "L = visited m"
  define key where "key = (\<lambda>p :: nat \<times> nat. COL_INDEX m ! snd p)"
  define T where "T = foldl prefix_step (foldl count_step (replicate (C + 1) 0) (COL_INDEX m))
                         [1..<C + 1]"
  have keysCI: "\<forall>k\<in>set (COL_INDEX m). k < C" using f(6) by (simp add: C_def)
  have Tlen: "length T = C + 1" unfolding T_def using transpose_offsets(1)[OF keysCI] .
  have Tnth: "T ! c = length (filter (\<lambda>k. k < c) (COL_INDEX m))" if "c \<le> C" for c
    unfolding T_def using transpose_offsets(2)[OF keysCI that] .
  have mapkey: "map key L = COL_INDEX m"
    unfolding key_def L_def by (rule visited_keys[OF inv])
  have S: "length (filter (\<lambda>p. key p < c) L) = length (filter (\<lambda>k. k < c) (COL_INDEX m))" for c
    using filter_keys_length[of "\<lambda>k. k < c" key L] by (simp add: mapkey)
  have cnt: "length (filter (\<lambda>p. key p = c) L) = length (filter (\<lambda>k. k = c) (COL_INDEX m))" for c
    using filter_keys_length[of "\<lambda>k. k = c" key L] by (simp add: mapkey)
  have keysL: "\<forall>p\<in>set L. COL_INDEX m ! snd p < C"
  proof
    fix p assume "p \<in> set L"
    then have "key p \<in> set (map key L)" by simp
    then have "key p \<in> set (COL_INDEX m)" by (simp only: mapkey)
    then show "COL_INDEX m ! snd p < C" using keysCI by (simp add: key_def)
  qed
  have lenL: "length L = length (V m)"
    using arg_cong[OF visited_snd[OF inv], of length] by (simp add: L_def)
  obtain ptr tv tc where
    run: "foldl (\<lambda>st (i, j). scatter_step m i st j) (T, [], []) L = (ptr, tv, tc)"
    by (metis prod_cases3)
  have ptr0: "C \<le> length T" "\<forall>c<C. T ! c = length (filter (\<lambda>p. COL_INDEX m ! snd p < c) L)"
    using Tlen Tnth S by (simp_all add: key_def)
  from scatter_result[OF keysL ptr0 run]
  obtain tV tC where res: "those tv = Some tV" "those tc = Some tC"
    "length tV = length L" "length tC = length L"
    "\<forall>c<C. \<forall>k<length (filter (\<lambda>p. key p = c) L).
        tV ! (length (filter (\<lambda>p. key p < c) L) + k) = V m ! snd (filter (\<lambda>p. key p = c) L ! k)
        \<and> tC ! (length (filter (\<lambda>p. key p < c) L) + k) = fst (filter (\<lambda>p. key p = c) L ! k)"
    unfolding key_def by blast
  define t where "t = \<lparr>rows = cols m, cols = rows m, V = tV, COL_INDEX = tC, ROW_INDEX = T\<rparr>"
  have loop: "foldl (scatter_row m) (T, [], []) [0..<nat (rows m)] = (ptr, tv, tc)"
  proof -
    have "scatter_row m = (\<lambda>st i. foldl (scatter_step m i) st (row_seg m i))"
      by (intro ext) (simp add: scatter_row_def)
    then show ?thesis
      using run foldl_nested_flatten[of "scatter_step m" "row_seg m" "(T, [], [])" "[0..<nat (rows m)]"]
      by (simp add: L_def visited_def)
  qed
  have t1: "map (\<lambda>i. COL_INDEX m ! i) [0..<length (V m)] = COL_INDEX m"
    using f(5) by (metis map_nth)
  have pre: "\<not> cols m + 1 < 0" "in_model m" "list_all (\<lambda>c. int c < cols m) (COL_INDEX m)"
    using f by (auto simp: list_all_iff)
  have nat1: "nat (cols m + 1) = C + 1" using f(3) by (simp add: C_def nat_add_distrib)
  have T_eq: "foldl prefix_step
                (foldl count_step (replicate (nat (cols m + 1)) 0)
                   (map (\<lambda>i. COL_INDEX m ! i) [0..<length (V m)]))
                [1..<nat (cols m) + 1] = T"
    by (simp only: t1 nat1 T_def C_def)
  have "transpose_matrix m = Inr t"
    unfolding transpose_matrix_def Let_def T_eq loop
    using pre res(1,2) by (simp add: t_def)
  moreover have "in_model t"
  proof -
    have "\<forall>x\<in>set T. x \<le> length tV"
    proof
      fix x assume "x \<in> set T"
      then obtain c where "c < length T" "x = T ! c" by (auto simp: in_set_conv_nth)
      then have "x = length (filter (\<lambda>k. k < c) (COL_INDEX m))" using Tnth[of c] Tlen by simp
      then show "x \<le> length tV" using res(3) lenL f(5)
        by (metis length_filter_le)
    qed
    then show ?thesis using res(3,4) by (simp add: in_model_def t_def list_all_iff)
  qed
  moreover have "row_entries t c = map (\<lambda>p. (fst p, V m ! snd p)) (filter (\<lambda>p. key p = c) L)"
    if c: "c < C" for c
  proof -
    let ?S = "length (filter (\<lambda>p. key p < c) L)"
    let ?F = "filter (\<lambda>p. key p = c) L"
    have "T ! (c + 1) = length (filter (\<lambda>p. key p < Suc c) L)"
      using Tnth[of "c + 1"] c S[of "Suc c"] by simp
    then have e: "T ! (c + 1) = ?S + length ?F" by (simp add: length_filter_key_less_Suc)
    have s: "T ! c = ?S" using Tnth[of c] c S[of c] by simp
    have seg: "row_seg t c = [?S..<?S + length ?F]"
      using c Tlen s e by (simp add: row_seg_def t_def)
    show ?thesis
    proof (rule nth_equalityI)
      show "length (row_entries t c) = length (map (\<lambda>p. (fst p, V m ! snd p)) ?F)"
        by (simp add: row_entries_def seg)
    next
      fix k assume "k < length (row_entries t c)"
      then have k: "k < length ?F" by (simp add: row_entries_def seg)
      then have cell: "tV ! (?S + k) = V m ! snd (?F ! k) \<and> tC ! (?S + k) = fst (?F ! k)"
        using res(5) c by simp
      have "row_entries t c ! k = (COL_INDEX t ! (?S + k), V t ! (?S + k))"
        using k by (simp add: row_entries_def seg)
      also have "\<dots> = (tC ! (?S + k), tV ! (?S + k))" by (simp add: t_def)
      finally show "row_entries t c ! k = map (\<lambda>p. (fst p, V m ! snd p)) ?F ! k"
        using k cell by simp
    qed
  qed
  moreover have "set tC \<subseteq> fst ` set L"
    using bucket_values_subset[of L key C tC fst] keysL res(4,5) by (simp add: key_def)
  moreover have "set tV \<subseteq> (\<lambda>p. V m ! snd p) ` set L"
    using bucket_values_subset[of L key C tV "\<lambda>p. V m ! snd p"] keysL res(3,5)
    by (simp add: key_def)
  ultimately show ?thesis
    using Tlen Tnth res(3,4) lenL
    by (intro exI[of _ t]) (simp add: t_def C_def key_def L_def)
qed


lemma map_of_block:
  "map_of (map (\<lambda>j. (k, g j)) (filter (\<lambda>j. f j = c) js)) i =
     (if i = k then map_of (map (\<lambda>j. (f j, g j)) js) c else None)"
  by (induction js) auto

lemma visited_block:
  "map (\<lambda>p. (fst p, g (snd p))) (filter (\<lambda>p. f (snd p) = c) (map (Pair k) js)) =
     map (\<lambda>j. (k, g j)) (filter (\<lambda>j. f j = c) js)"
  by (induction js) auto

lemma map_of_visited:
  "distinct ks \<Longrightarrow>
     map_of (map (\<lambda>p. (fst p, g (snd p)))
               (filter (\<lambda>p. f (snd p) = c) (concat (map (\<lambda>i. map (Pair i) (h i)) ks)))) i =
       (if i \<in> set ks then map_of (map (\<lambda>j. (f j, g j)) (h i)) c else None)"
proof (induction ks)
  case Nil
  show ?case by simp
next
  case (Cons k ks)
  then show ?case
    by (auto simp: visited_block map_of_block map_add_def split: option.splits)
qed

lemma transpose_lookup:
  assumes "i < nat (rows m)"
  shows "acc_get (map (\<lambda>p. (fst p, V m ! snd p))
                    (filter (\<lambda>p. COL_INDEX m ! snd p = c) (visited m))) i
           = acc_get (row_entries m i) c"
  using assms map_of_visited[of "[0..<nat (rows m)]" "\<lambda>j. V m ! j" "\<lambda>j. COL_INDEX m ! j" c
      "row_seg m" i]
  by (simp add: acc_get_def visited_def row_entries_def)

lemma length_filter_distinct_le1:
  "distinct (map f xs) \<Longrightarrow> length (filter (\<lambda>j. f j = c) xs) \<le> 1"
proof (induction xs)
  case Nil
  show ?case by simp
next
  case (Cons x xs)
  show ?case
  proof (cases "f x = c")
    case True
    have "f x \<notin> f ` set xs" using Cons.prems by simp
    then have "\<forall>j\<in>set xs. f j \<noteq> c" unfolding True[symmetric] by (metis imageI)
    then have "filter (\<lambda>j. f j = c) xs = []" by (simp add: filter_empty_conv)
    then show ?thesis using True by simp
  next
    case False
    then show ?thesis using Cons by simp
  qed
qed

lemma sorted_visited_filter:
  "sorted_wrt (<) ks \<Longrightarrow> \<forall>i\<in>set ks. distinct (map f (h i)) \<Longrightarrow>
     sorted_wrt (<) (map fst (filter (\<lambda>p. f (snd p) = c)
                                 (concat (map (\<lambda>i. map (Pair i) (h i)) ks))))"
proof (induction ks)
  case Nil
  show ?case by simp
next
  case (Cons k ks)
  let ?block = "map fst (filter (\<lambda>p. f (snd p) = c) (map (Pair k) (h k)))"
  let ?rest = "map fst (filter (\<lambda>p. f (snd p) = c) (concat (map (\<lambda>i. map (Pair i) (h i)) ks)))"
  have b: "?block = replicate (length (filter (\<lambda>j. f j = c) (h k))) k"
    by (induction "h k") (auto simp: filter_map comp_def map_replicate_const)
  have "length (filter (\<lambda>j. f j = c) (h k)) \<le> 1"
    using Cons.prems by (intro length_filter_distinct_le1) simp
  then have sb: "sorted_wrt (<) ?block"
    by (cases "length (filter (\<lambda>j. f j = c) (h k))") (simp_all add: b)
  have sr: "sorted_wrt (<) ?rest" using Cons by simp
  have "set ?rest \<subseteq> set ks" by auto
  then have "\<forall>x\<in>set ?block. \<forall>y\<in>set ?rest. x < y"
    using Cons.prems(1) by (auto simp: b)
  then show ?case using sb sr by (simp add: sorted_wrt_append)
qed

lemma transpose_get:
  assumes inv: "csr_inv m" and t: "transpose_matrix m = Inr t"
    and c: "c < nat (cols m)" and i: "i < nat (rows m)"
  shows "get t c i = get m i c"
proof -
  note f = csr_inv_facts[OF inv]
  from transpose_rows[OF inv] t have
    tm: "in_model t" "length (ROW_INDEX t) = nat (cols m) + 1"
    and rows: "row_entries t c = map (\<lambda>p. (fst p, V m ! snd p))
                   (filter (\<lambda>p. COL_INDEX m ! snd p = c) (visited m))"
    using c by auto
  have "get t c i = Some (acc_get (row_entries t c) i)"
    using tm c by (intro get_row_entries) simp_all
  also have "\<dots> = Some (acc_get (row_entries m i) c)"
    by (simp only: rows transpose_lookup[OF i])
  also have "\<dots> = get m i c"
    using f(1,4) i by (intro get_row_entries[symmetric]) simp_all
  finally show ?thesis .
qed

lemma transpose_csr_inv:
  assumes inv: "csr_inv m" and t: "transpose_matrix m = Inr t"
  shows "csr_inv t" "rows t = cols m" "cols t = rows m"
proof -
  note f = csr_inv_facts[OF inv]
  define C where "C = nat (cols m)"
  from transpose_rows[OF inv] t have
    sh: "rows t = cols m" "cols t = rows m"
    and tm: "in_model t" "length (ROW_INDEX t) = C + 1"
    and len: "length (V t) = length (V m)" "length (COL_INDEX t) = length (V m)"
    and off: "\<forall>c\<le>C. ROW_INDEX t ! c = length (filter (\<lambda>k. k < c) (COL_INDEX m))"
    and rows: "\<forall>c<C. row_entries t c = map (\<lambda>p. (fst p, V m ! snd p))
                   (filter (\<lambda>p. COL_INDEX m ! snd p = c) (visited m))"
    and sub: "set (COL_INDEX t) \<subseteq> fst ` set (visited m)"
      "set (V t) \<subseteq> (\<lambda>p. V m ! snd p) ` set (visited m)"
    unfolding C_def by auto
  show "rows t = cols m" "cols t = rows m" by (rule sh)+
  have vis_fst: "fst p < nat (rows m)" if "p \<in> set (visited m)" for p
    using that by (auto simp: visited_def)
  have vis_snd: "snd p < length (V m)" if "p \<in> set (visited m)" for p
  proof -
    have "snd p \<in> set (map snd (visited m))" using that by simp
    then show ?thesis by (simp only: visited_snd[OF inv]) simp
  qed
  have "int c < rows m" if "c \<in> set (COL_INDEX t)" for c
  proof -
    from that sub(1) obtain p where "p \<in> set (visited m)" "c = fst p" by auto
    then have "c < nat (rows m)" using vis_fst by simp
    then show ?thesis by simp
  qed
  then have shape: "csr_shape t"
    using f(2,3) tm(2) len
    by (simp add: csr_shape_def sh C_def list_all_iff)
  have nz: "inv_nonzero t"
  proof -
    have "x \<noteq> 0" if "x \<in> set (V t)" for x
    proof -
      from that sub(2) obtain p where "p \<in> set (visited m)" "x = V m ! snd p" by auto
      then have "x \<in> set (V m)" using vis_snd by simp
      then show ?thesis using f(11) by (auto simp: inv_nonzero_def list_all_iff)
    qed
    then show ?thesis by (auto simp: inv_nonzero_def list_all_iff)
  qed
  have offs: "inv_offsets t"
  proof -
    have ne: "ROW_INDEX t \<noteq> []" using tm(2) by auto
    have "hd (ROW_INDEX t) = ROW_INDEX t ! 0" using ne by (simp add: hd_conv_nth)
    then have h: "hd (ROW_INDEX t) = 0" using off by simp
    have "last (ROW_INDEX t) = ROW_INDEX t ! C" using ne tm(2) by (simp add: last_conv_nth)
    also have "\<dots> = length (filter (\<lambda>k. k < C) (COL_INDEX m))" using off by simp
    also have "filter (\<lambda>k. k < C) (COL_INDEX m) = COL_INDEX m"
      using f(6) by (simp add: filter_id_conv C_def)
    finally have l: "last (ROW_INDEX t) = length (V t)" using f(5) len by simp
    have s: "sorted (ROW_INDEX t)"
    proof (rule sorted_nth_Suc)
      fix c assume "Suc c < length (ROW_INDEX t)"
      then have "Suc c \<le> C" using tm(2) by simp
      then show "ROW_INDEX t ! c \<le> ROW_INDEX t ! Suc c"
        using off length_filter_key_less_mono[of c "Suc c" "\<lambda>k. k" "COL_INDEX m"] by simp
    qed
    show ?thesis using ne h l s by (simp add: inv_offsets_def)
  qed
  have srt: "inv_sorted t"
  proof -
    have "sorted_wrt (<) (columns_of t c)" if c: "c < C" for c
    proof -
      have "distinct (map (\<lambda>j. COL_INDEX m ! j) (row_seg m i))" if "i \<in> set [0..<nat (rows m)]" for i
      proof -
        have i: "i + 1 < length (ROW_INDEX m)" using that f(4) by simp
        have "sorted_wrt (<) (columns_of m i)"
          using f(10) i by (simp add: inv_sorted_def list_all_iff)
        then have "distinct (columns_of m i)" by (simp add: strict_sorted_iff)
        then show ?thesis
          using row_entries_fst[OF f(1) i] by (simp add: row_entries_def comp_def)
      qed
      then have "sorted_wrt (<) (map fst (filter (\<lambda>p. COL_INDEX m ! snd p = c) (visited m)))"
        unfolding visited_def by (intro sorted_visited_filter) simp_all
      moreover have "columns_of t c = map fst (row_entries t c)"
        using row_entries_fst[OF tm(1), of c] c tm(2) by simp
      ultimately show ?thesis using rows c by (simp add: comp_def)
    qed
    then show ?thesis by (simp add: inv_sorted_def list_all_iff tm(2))
  qed
  show "csr_inv t" using shape srt nz offs by (simp add: csr_inv_def csr_invariants_def)
qed

subsection \<open>The dense grid\<close>

text \<open>The \<open>data\<close> getter writes the stored entries into a grid of zeros; with distinct
  columns in every row, cell \<open>(i, j)\<close> ends as what \<open>get\<close> finds.\<close>

lemma map_of_rev_distinct:
  "distinct (map fst xs) \<Longrightarrow> map_of (rev xs) k = map_of xs k"
proof (induction xs)
  case Nil
  show ?case by simp
next
  case (Cons x xs)
  then have ih: "map_of (rev xs) k = map_of xs k" by simp
  show ?case
  proof (cases "k = fst x")
    case True
    then have "map_of xs k = None" using Cons.prems by (simp add: map_of_eq_None_iff)
    then show ?thesis using True ih by (cases x) (simp add: map_add_def)
  next
    case False
    then show ?thesis using ih by (cases x) (auto simp: map_add_def split: option.splits)
  qed
qed

lemma data_write_in_range:
  "row < length d \<Longrightarrow> col < length (d ! row) \<Longrightarrow>
     data_write v row col (Inr d) = Inr (d[row := (d ! row)[col := v]])"
  by (simp add: data_write_def)

lemma foldl_data_write:
  assumes G: "length G = R" "\<forall>i<R. length (G ! i) = C"
  shows "\<forall>e\<in>set es. fst (snd e) < R \<and> snd (snd e) < C \<Longrightarrow>
      \<exists>G'. foldl (\<lambda>s (v, row, col). data_write v row col s) (Inr G) es = Inr G'
        \<and> length G' = R \<and> (\<forall>i<R. length (G' ! i) = C
        \<and> (\<forall>j<C. G' ! i ! j =
              (case map_of (rev (map (\<lambda>e. (snd e, fst e)) es)) (i, j) of
                 None \<Rightarrow> G ! i ! j | Some v \<Rightarrow> v)))"
proof (induction es rule: rev_induct)
  case Nil
  show ?case using G by simp
next
  case (snoc e es)
  obtain v r c where e: "e = (v, r, c)" by (cases e)
  have rc: "r < R" "c < C" using snoc.prems by (simp_all add: e)
  have "\<forall>e\<in>set es. fst (snd e) < R \<and> snd (snd e) < C" using snoc.prems by simp
  from snoc.IH[OF this] obtain G1 where
    g1: "foldl (\<lambda>s (v, row, col). data_write v row col s) (Inr G) es = Inr G1"
      "length G1 = R" "\<forall>i<R. length (G1 ! i) = C"
      "\<forall>i<R. \<forall>j<C. G1 ! i ! j =
              (case map_of (rev (map (\<lambda>e. (snd e, fst e)) es)) (i, j) of
                 None \<Rightarrow> G ! i ! j | Some v \<Rightarrow> v)"
    by blast
  let ?G' = "G1[r := (G1 ! r)[c := v]]"
  have "foldl (\<lambda>s (v, row, col). data_write v row col s) (Inr G) (es @ [e]) = Inr ?G'"
    using g1 rc by (simp add: e data_write_in_range)
  moreover have "length ?G' = R" using g1 by simp
  moreover have "\<forall>i<R. length (?G' ! i) = C
        \<and> (\<forall>j<C. ?G' ! i ! j =
              (case map_of (rev (map (\<lambda>e. (snd e, fst e)) (es @ [e]))) (i, j) of
                 None \<Rightarrow> G ! i ! j | Some v \<Rightarrow> v))"
  proof (intro allI impI conjI)
    fix i assume i: "i < R"
    have li: "length (G1 ! i) = C" and lr: "length (G1 ! r) = C" using g1(3) i rc by simp_all
    show "length (?G' ! i) = C"
    proof (cases "i = r")
      case True
      then show ?thesis using g1(2) rc lr by simp
    next
      case False
      then show ?thesis using li by simp
    qed
    fix j assume j: "j < C"
    have old: "G1 ! i ! j =
              (case map_of (rev (map (\<lambda>e. (snd e, fst e)) es)) (i, j) of
                 None \<Rightarrow> G ! i ! j | Some v \<Rightarrow> v)"
      using g1(4) i j by simp
    have new: "?G' ! i ! j = (if i = r \<and> j = c then v else G1 ! i ! j)"
    proof (cases "i = r")
      case True
      then show ?thesis using g1(2) rc lr j by (simp add: nth_list_update)
    next
      case False
      then show ?thesis by simp
    qed
    have "map_of (rev (map (\<lambda>e. (snd e, fst e)) (es @ [e]))) (i, j) =
            (if i = r \<and> j = c then Some v
             else map_of (rev (map (\<lambda>e. (snd e, fst e)) es)) (i, j))"
      by (simp add: e)
    then show "?G' ! i ! j =
              (case map_of (rev (map (\<lambda>e. (snd e, fst e)) (es @ [e]))) (i, j) of
                 None \<Rightarrow> G ! i ! j | Some v \<Rightarrow> v)"
      using old new by simp
  qed
  ultimately show ?case by blast
qed

lemma distinct_keyed_rows:
  "distinct ks \<Longrightarrow> \<forall>i\<in>set ks. distinct (map fst (g i)) \<Longrightarrow>
     distinct (concat (map (\<lambda>i. map (\<lambda>e. (i, fst e)) (g i)) ks))"
proof (induction ks)
  case Nil
  show ?case by simp
next
  case (Cons k ks)
  have "distinct (map (\<lambda>e. (k, fst e)) (g k))"
    using Cons.prems(2) by (simp add: distinct_map inj_on_def)
  moreover have "set (map (\<lambda>e. (k, fst e)) (g k))
                   \<inter> set (concat (map (\<lambda>i. map (\<lambda>e. (i, fst e)) (g i)) ks)) = {}"
    using Cons.prems(1) by auto
  ultimately show ?case using Cons by simp
qed

lemma map_of_keyed_block:
  "map_of (map (\<lambda>e. ((k, fst e), snd e)) xs) (i, j) =
     (if i = k then map_of xs j else None)"
  by (induction xs) auto

lemma map_of_keyed_rows:
  "distinct ks \<Longrightarrow>
     map_of (concat (map (\<lambda>i. map (\<lambda>e. ((i, fst e), snd e)) (g i)) ks)) (i, j) =
       (if i \<in> set ks then map_of (g i) j else None)"
proof (induction ks)
  case Nil
  show ?case by simp
next
  case (Cons k ks)
  show ?case using Cons by (auto simp: map_of_keyed_block map_add_def split: option.splits)
qed

lemma row_entries_distinct:
  assumes "csr_inv m" "i < nat (rows m)"
  shows "distinct (map fst (row_entries m i))"
proof -
  note f = csr_inv_facts[OF assms(1)]
  have i: "i + 1 < length (ROW_INDEX m)" using assms(2) f(4) by simp
  have "sorted_wrt (<) (columns_of m i)"
    using f(10) i by (simp add: inv_sorted_def list_all_iff)
  then show ?thesis
    using row_entries_fst[OF f(1) i] by (simp add: strict_sorted_iff)
qed

lemma row_entries_cols:
  assumes "csr_inv m" "i < nat (rows m)" "e \<in> set (row_entries m i)"
  shows "fst e < nat (cols m)"
proof -
  note f = csr_inv_facts[OF assms(1)]
  have i: "i + 1 < length (ROW_INDEX m)" using assms(2) f(4) by simp
  have "fst e \<in> set (map fst (row_entries m i))" using assms(3) by simp
  then have "fst e \<in> set (columns_of m i)" by (simp only: row_entries_fst[OF f(1) i])
  then have "fst e \<in> set (COL_INDEX m)"
    by (auto simp: columns_of_def js_slice_def Let_def dest: in_set_takeD in_set_dropD)
  then show ?thesis using f(6) by simp
qed

lemma data_grid:
  assumes inv: "csr_inv m"
  shows "data m = Inr (map (\<lambda>i. map (\<lambda>j. acc_get (row_entries m i) j) [0..<nat (cols m)])
                         [0..<nat (rows m)])"
proof -
  note f = csr_inv_facts[OF inv]
  define R where "R = nat (rows m)"
  define C where "C = nat (cols m)"
  define es where "es = stored_entries m"
  define G0 where "G0 = replicate R (replicate C (0::int))"
  have es: "es = concat (map (\<lambda>row. map (\<lambda>(col, v). (v, row, col)) (row_entries m row)) [0..<R])"
    using f(4) by (simp add: es_def stored_entries_def R_def)
  have bounds: "\<forall>e\<in>set es. fst (snd e) < R \<and> snd (snd e) < C"
    using row_entries_cols[OF inv] by (auto simp: es R_def C_def)
  have G0: "length G0 = R" "\<forall>i<R. length (G0 ! i) = C" by (simp_all add: G0_def)
  from foldl_data_write[OF G0 bounds] obtain G' where
    g: "foldl (\<lambda>s (v, row, col). data_write v row col s) (Inr G0) es = Inr G'"
      "length G' = R" "\<forall>i<R. length (G' ! i) = C"
      "\<forall>i<R. \<forall>j<C. G' ! i ! j =
              (case map_of (rev (map (\<lambda>e. (snd e, fst e)) es)) (i, j) of
                 None \<Rightarrow> G0 ! i ! j | Some v \<Rightarrow> v)"
    by blast
  have keyed: "map (\<lambda>e. (snd e, fst e)) es =
                 concat (map (\<lambda>i. map (\<lambda>e. ((i, fst e), snd e)) (row_entries m i)) [0..<R])"
    by (simp add: es map_concat comp_def case_prod_beta)
  have "map fst (map (\<lambda>e. (snd e, fst e)) es) =
          concat (map (\<lambda>i. map (\<lambda>e. (i, fst e)) (row_entries m i)) [0..<R])"
    by (simp only: keyed) (simp add: map_concat comp_def)
  moreover have "distinct (concat (map (\<lambda>i. map (\<lambda>e. (i, fst e)) (row_entries m i)) [0..<R]))"
    using row_entries_distinct[OF inv] by (intro distinct_keyed_rows) (simp_all add: R_def)
  ultimately have dist: "distinct (map fst (map (\<lambda>e. (snd e, fst e)) es))" by simp
  have cell: "G' ! i ! j = acc_get (row_entries m i) j" if "i < R" "j < C" for i j
  proof -
    have "map_of (rev (map (\<lambda>e. (snd e, fst e)) es)) (i, j)
            = map_of (map (\<lambda>e. (snd e, fst e)) es) (i, j)"
      using dist by (rule map_of_rev_distinct)
    also have "\<dots> = map_of (row_entries m i) j"
      using that(1) map_of_keyed_rows[of "[0..<R]" "row_entries m" i j]
      by (simp only: keyed) simp
    finally have "G' ! i ! j = (case map_of (row_entries m i) j of None \<Rightarrow> G0 ! i ! j | Some v \<Rightarrow> v)"
      using g(4) that by simp
    moreover have "G0 ! i ! j = 0" using that by (simp add: G0_def)
    ultimately show ?thesis by (simp add: acc_get_def split: option.splits)
  qed
  have "G' = map (\<lambda>i. map (\<lambda>j. acc_get (row_entries m i) j) [0..<C]) [0..<R]"
  proof (rule nth_equalityI)
    show "length G' = length (map (\<lambda>i. map (\<lambda>j. acc_get (row_entries m i) j) [0..<C]) [0..<R])"
      using g(2) by simp
  next
    fix i assume "i < length G'"
    then have i: "i < R" using g(2) by simp
    have "G' ! i = map (\<lambda>j. acc_get (row_entries m i) j) [0..<C]"
    proof (rule nth_equalityI)
      show "length (G' ! i) = length (map (\<lambda>j. acc_get (row_entries m i) j) [0..<C])"
        using g(3) i by simp
    next
      fix j assume "j < length (G' ! i)"
      then have "j < C" using g(3) i by simp
      then show "G' ! i ! j = map (\<lambda>j. acc_get (row_entries m i) j) [0..<C] ! j"
        using cell[OF i] by simp
    qed
    then show "G' ! i = map (\<lambda>i. map (\<lambda>j. acc_get (row_entries m i) j) [0..<C]) [0..<R] ! i"
      using i by simp
  qed
  moreover have "data m = Inr G'"
    using f(1,2,3) g(1) by (simp add: data_def forEach_strict_def es_def G0_def R_def C_def)
  ultimately show ?thesis by (simp add: R_def C_def)
qed

subsection \<open>The Hadamard product of stores that satisfy the invariants\<close>

lemma hadamard_row_cols:
  "x \<in> set (hadamard_row xs ys) \<Longrightarrow> \<exists>y\<in>set xs. fst y = fst x"
proof (induction xs ys arbitrary: x rule: hadamard_row.induct)
  case (1 bs)
  then show ?case by simp
next
  case (2 a as)
  then show ?case by simp
next
  case (3 aCol aVal as bCol bVal bs)
  show ?case
  proof (cases "aCol = bCol")
    case True
    then have "x = (aCol, aVal * bVal) \<or> x \<in> set (hadamard_row as bs)"
      using "3.prems" by (auto simp: Let_def split: if_splits)
    then show ?thesis using "3.IH"(1)[OF True refl, of x] by auto
  next
    case False
    show ?thesis
    proof (cases "aCol < bCol")
      case True
      then have "x \<in> set (hadamard_row as ((bCol, bVal) # bs))"
        using "3.prems" False by simp
      then show ?thesis using "3.IH"(2)[OF False True, of x] by auto
    next
      case ge: False
      then have "x \<in> set (hadamard_row ((aCol, aVal) # as) bs)"
        using "3.prems" False by simp
      then show ?thesis using "3.IH"(3)[OF False ge, of x] by auto
    qed
  qed
qed

lemma hadamard_row_sorted:
  "sorted_wrt (<) (map fst xs) \<Longrightarrow> sorted_wrt (<) (map fst (hadamard_row xs ys))"
proof (induction xs ys rule: hadamard_row.induct)
  case (1 bs)
  then show ?case by simp
next
  case (2 a as)
  then show ?case by simp
next
  case (3 aCol aVal as bCol bVal bs)
  have tl: "sorted_wrt (<) (map fst as)" and hd: "\<forall>y\<in>set as. aCol < fst y"
    using "3.prems" by auto
  show ?case
  proof (cases "aCol = bCol")
    case True
    have "aCol < fst x" if "x \<in> set (hadamard_row as bs)" for x
      using hadamard_row_cols[OF that] hd by auto
    then show ?thesis using True "3.IH"(1)[OF True refl tl] by (auto simp: Let_def)
  next
    case False
    show ?thesis
    proof (cases "aCol < bCol")
      case True
      then show ?thesis using False "3.IH"(2)[OF False True tl] by simp
    next
      case ge: False
      then show ?thesis using False "3.IH"(3)[OF False ge "3.prems"] by simp
    qed
  qed
qed

lemma hadamard_row_nonzero: "x \<in> set (hadamard_row xs ys) \<Longrightarrow> snd x \<noteq> 0"
  by (induction xs ys rule: hadamard_row.induct) (auto simp: Let_def split: if_splits)

lemma foldl_push_row_C:
  "fst (snd (foldl (\<lambda>st i. push_row st (f i)) st ks)) =
     fst (snd st) @ concat (map (\<lambda>i. map fst (f i)) ks)"
  by (induction ks arbitrary: st) (auto simp: push_row_def split: prod.splits)

lemma hadamard_csr_inv:
  assumes a: "csr_inv a" and b: "csr_inv b" and sh: "rows a = rows b" "cols a = cols b"
  shows "\<exists>c d. hadamard a b = Inr c \<and> csr_inv c \<and> data c = Inr d"
proof -
  note fa = csr_inv_facts[OF a] and fb = csr_inv_facts[OF b]
  let ?f = "\<lambda>i. hadamard_row (row_entries a i) (row_entries b i)"
  obtain cv cc cr where
    st: "foldl (\<lambda>st i. push_row st (?f i)) ([], [], [0]) [0..<nat (rows a)] = (cv, cc, cr)"
    using prod_cases3 by blast
  define c where "c = \<lparr>rows = rows a, cols = cols a, V = cv, COL_INDEX = cc, ROW_INDEX = cr\<rparr>"
  have fields: "V c = cv" "COL_INDEX c = cc" "ROW_INDEX c = cr" by (simp_all add: c_def)
  have res: "hadamard a b = Inr c"
    using fa(1) fb(1) sh st by (simp add: hadamard_def c_def)
  have srt: "sorted_wrt (<) (map fst (?f r))" if "r < nat (rows a)" for r
  proof -
    have "distinct (map fst (row_entries a r))" by (rule row_entries_distinct[OF a that])
    have r: "r + 1 < length (ROW_INDEX a)" using that fa(4) by simp
    have "sorted_wrt (<) (columns_of a r)"
      using fa(10) r by (simp add: inv_sorted_def list_all_iff)
    then have "sorted_wrt (<) (map fst (row_entries a r))"
      by (simp only: row_entries_fst[OF fa(1) r])
    then show ?thesis by (rule hadamard_row_sorted)
  qed
  have inv3: "csr_invariants c"
    by (rule built_rows_invariants[OF st fields]) (simp_all add: srt hadamard_row_nonzero)
  have "cc = fst (snd (foldl (\<lambda>st i. push_row st (?f i)) ([], [], [0]) [0..<nat (rows a)]))"
    by (simp add: st)
  then have cc: "cc = concat (map (\<lambda>i. map fst (?f i)) [0..<nat (rows a)])"
    by (simp add: foldl_push_row_C)
  have "int k < cols a" if "k \<in> set cc" for k
  proof -
    from that cc obtain i x where i: "i < nat (rows a)" and x: "x \<in> set (?f i)" "k = fst x"
      by fastforce
    from hadamard_row_cols[OF x(1)] obtain y where
      y: "y \<in> set (row_entries a i)" "fst y = k" using x(2) by auto
    have "k < nat (cols a)" using row_entries_cols[OF a i y(1)] y(2) by simp
    then show ?thesis by simp
  qed
  then have "csr_shape c"
    using fa(2,3) built_rows_in_model[OF st fields]
    by (simp add: csr_shape_def in_model_def c_def list_all_iff)
  then have "csr_inv c" using inv3 by (simp add: csr_inv_def)
  then show ?thesis using res data_grid[of c] by blast
qed

subsection \<open>Minors and the cofactor expansion\<close>

lemma grid_acc_get: "grid m r c = map (\<lambda>i. map (\<lambda>j. acc_get (row_entries m i) j) [0..<c]) [0..<r]"
  by (simp add: grid_def acc_get_def)

lemma data_is_grid: "csr_inv m \<Longrightarrow> data m = Inr (grid m (nat (rows m)) (nat (cols m)))"
  by (simp add: data_grid grid_acc_get)

lemma submatrix_row_push_row:
  assumes "i \<noteq> er" "sr \<noteq> []" "last sr = length sv"
  shows "submatrix_row m er ec (sv, sc, sr) i =
           push_row (sv, sc, sr)
             (map (\<lambda>(col, v). (if col < ec then col else col - 1, v))
                (filter (\<lambda>(col, v). col \<noteq> ec) (row_entries m i)))"
  using assms by (simp add: submatrix_row_def push_row_def Let_def comp_def case_prod_beta)

lemma push_row_last:
  "push_row (sv, sc, sr) es = (sv', sc', sr') \<Longrightarrow> sr' \<noteq> [] \<and> last sr' = length sv'"
  by (auto simp: push_row_def)

lemma foldl_submatrix_row_push_row:
  assumes "er \<notin> set ks" "sr \<noteq> []" "last sr = length sv"
  shows "foldl (submatrix_row m er ec) (sv, sc, sr) ks =
           foldl (\<lambda>st i. push_row st
                   (map (\<lambda>(col, v). (if col < ec then col else col - 1, v))
                      (filter (\<lambda>(col, v). col \<noteq> ec) (row_entries m i))))
             (sv, sc, sr) ks"
  using assms
proof (induction ks arbitrary: sv sc sr)
  case Nil
  show ?case by simp
next
  case (Cons k ks)
  let ?es = "map (\<lambda>(col, v). (if col < ec then col else col - 1, v))
                (filter (\<lambda>(col, v). col \<noteq> ec) (row_entries m k))"
  obtain sv' sc' sr' where p: "push_row (sv, sc, sr) ?es = (sv', sc', sr')"
    using prod_cases3 by blast
  have step: "submatrix_row m er ec (sv, sc, sr) k = (sv', sc', sr')"
    using Cons.prems submatrix_row_push_row[of k er sr sv m ec sc] p by simp
  have "er \<notin> set ks" "sr' \<noteq> []" "last sr' = length sv'"
    using Cons.prems push_row_last[OF p] by simp_all
  from Cons.IH[OF this] show ?case by (simp only: foldl_Cons step p)
qed

lemma submatrix_fold:
  "foldl (submatrix_row m 0 ec) ([], [], [0]) [0..<Suc n] =
     foldl (\<lambda>st i. push_row st
             (map (\<lambda>(col, v). (if col < ec then col else col - 1, v))
                (filter (\<lambda>(col, v). col \<noteq> ec) (row_entries m (Suc i)))))
       ([], [], [0]) [0..<n]"
proof -
  have "[0..<Suc n] = 0 # map Suc [0..<n]"
    by (simp add: upt_conv_Cons map_Suc_upt del: upt_Suc)
  then have "foldl (submatrix_row m 0 ec) ([], [], [0]) [0..<Suc n] =
               foldl (submatrix_row m 0 ec) ([], [], [0]) (map Suc [0..<n])"
    by (simp add: submatrix_row_def del: upt_Suc)
  also have "\<dots> = foldl (\<lambda>st i. push_row st
                   (map (\<lambda>(col, v). (if col < ec then col else col - 1, v))
                      (filter (\<lambda>(col, v). col \<noteq> ec) (row_entries m i))))
             ([], [], [0]) (map Suc [0..<n])"
    by (rule foldl_submatrix_row_push_row) auto
  finally show ?thesis by (simp add: foldl_map del: upt_Suc)
qed


lemma map_of_shift:
  "map_of (map (\<lambda>(col, v). (if col < (c::nat) then col else col - 1, v))
             (filter (\<lambda>(col, v). col \<noteq> c) es)) j
     = map_of es (if j < c then j else j + 1)"
proof (induction es)
  case Nil
  show ?case by simp
next
  case (Cons e es)
  obtain col v where e: "e = (col, v)" by (cases e)
  let ?t = "if j < c then j else j + 1"
  show ?case
  proof (cases "col = c")
    case True
    have "?t \<noteq> c" by auto
    then have "map_of (e # es) ?t = map_of es ?t" using True by (simp add: e)
    then show ?thesis using Cons.IH True by (simp add: e)
  next
    case False
    have key: "((if col < c then col else col - 1) = j) = (col = ?t)"
      using False by auto
    show ?thesis
    proof (cases "col = ?t")
      case True
      then have "(if col < c then col else col - 1) = j" using key by simp
      then show ?thesis using True False by (simp add: e)
    next
      case ne: False
      then have "(if col < c then col else col - 1) \<noteq> j" using key by simp
      then have "map_of (map (\<lambda>(col, v). (if col < c then col else col - 1, v))
             (filter (\<lambda>(col, v). col \<noteq> c) (e # es))) j =
            map_of (map (\<lambda>(col, v). (if col < c then col else col - 1, v))
             (filter (\<lambda>(col, v). col \<noteq> c) es)) j"
        using False by (simp add: e)
      moreover have "map_of (e # es) ?t = map_of es ?t" using ne by (simp add: e)
      ultimately show ?thesis using Cons.IH by simp
    qed
  qed
qed

lemma delete_col_map:
  "c \<le> n \<Longrightarrow>
     delete_col c (map h [0..<Suc n]) = map (\<lambda>j. h (if j < c then j else j + 1)) [0..<n]"
proof (rule nth_equalityI)
  assume "c \<le> n"
  then show "length (delete_col c (map h [0..<Suc n])) =
               length (map (\<lambda>j. h (if j < c then j else j + 1)) [0..<n])"
    by (simp add: delete_col_def)
next
  fix j assume c: "c \<le> n" and "j < length (delete_col c (map h [0..<Suc n]))"
  then have j: "j < n" by (simp add: delete_col_def)
  show "delete_col c (map h [0..<Suc n]) ! j = map (\<lambda>j. h (if j < c then j else j + 1)) [0..<n] ! j"
  proof (cases "j < c")
    case True
    then show ?thesis using c j by (simp add: delete_col_def nth_append del: upt_Suc)
  next
    case False
    then have "c + 1 + (j - c) = j + 1" by simp
    then show ?thesis using False c j
      by (simp add: delete_col_def nth_append min_def del: upt_Suc)
  qed
qed

lemma grid_minor:
  assumes "c \<le> n"
    and "\<forall>i<n. row_entries s i =
           map (\<lambda>(col, v). (if col < c then col else col - 1, v))
             (filter (\<lambda>(col, v). col \<noteq> c) (row_entries m (Suc i)))"
  shows "grid s n n = minor (grid m (Suc n) (Suc n)) c"
proof -
  let ?look = "\<lambda>i j. case map_of (row_entries m i) j of None \<Rightarrow> (0::int) | Some y \<Rightarrow> y"
  have "tl (map (\<lambda>i. map (?look i) [0..<Suc n]) [0..<Suc n]) =
          map (\<lambda>i. map (?look (Suc i)) [0..<Suc n]) [0..<n]"
    by (simp add: upt_conv_Cons map_Suc_upt[symmetric] comp_def del: upt_Suc)
  then have "minor (grid m (Suc n) (Suc n)) c =
               map (\<lambda>i. delete_col c (map (?look (Suc i)) [0..<Suc n])) [0..<n]"
    by (simp add: minor_def grid_def comp_def del: upt_Suc)
  also have "\<dots> = map (\<lambda>i. map (\<lambda>j. ?look (Suc i) (if j < c then j else j + 1)) [0..<n]) [0..<n]"
    using assms(1) by (simp only: delete_col_map)
  also have "\<dots> = grid s n n"
    unfolding grid_def using assms(2) by (intro map_cong refl) (simp add: map_of_shift)
  finally show ?thesis by simp
qed

lemma sum_list_delta:
  "sum_list (map (\<lambda>k. if k = c then (a::int) else 0) [0..<N]) = (if c < N then a else 0)"
  by (induction N) auto

lemma sum_lookup:
  fixes h :: "nat \<Rightarrow> int \<Rightarrow> int"
  assumes h0: "\<And>c. h c 0 = 0"
  shows "distinct (map fst es) \<Longrightarrow> \<forall>e\<in>set es. fst e < N \<Longrightarrow>
     sum_list (map (\<lambda>col. h col (case map_of es col of None \<Rightarrow> 0 | Some y \<Rightarrow> y)) [0..<N])
       = sum_list (map (\<lambda>e. h (fst e) (snd e)) es)"
proof (induction es)
  case Nil
  show ?case by (simp add: h0)
next
  case (Cons e es)
  obtain c v where e: "e = (c, v)" by (cases e)
  have c: "c < N" "map_of es c = None"
    using Cons.prems by (auto simp: e map_of_eq_None_iff)
  have "(\<lambda>col. h col (case map_of (e # es) col of None \<Rightarrow> 0 | Some y \<Rightarrow> y)) =
        (\<lambda>col. h col (case map_of es col of None \<Rightarrow> 0 | Some y \<Rightarrow> y)
                + (if col = c then h c v else 0))"
    using c(2) by (auto simp: e h0 fun_eq_iff)
  then have "sum_list (map (\<lambda>col. h col (case map_of (e # es) col of None \<Rightarrow> 0 | Some y \<Rightarrow> y)) [0..<N])
        = sum_list (map (\<lambda>col. h col (case map_of es col of None \<Rightarrow> 0 | Some y \<Rightarrow> y)) [0..<N])
          + sum_list (map (\<lambda>col. if col = c then h c v else 0) [0..<N])"
    by (simp only: sum_list_addf)
  also have "\<dots> = sum_list (map (\<lambda>e. h (fst e) (snd e)) es) + h c v"
    using Cons c(1) by (simp add: sum_list_delta)
  finally show ?case by (simp add: e)
qed

lemma foldl_cofactor_Inl:
  "foldl (\<lambda>acc i. case acc of Inl e \<Rightarrow> Inl e
                   | Inr det \<Rightarrow> (case rec i of Inl e \<Rightarrow> Inl e
                                | Inr c \<Rightarrow> Inr (det + trm i c))) (Inl e) js = Inl e"
  by (induction js) simp_all

lemma foldl_cofactor:
  "foldl (\<lambda>acc i. case acc of Inl e \<Rightarrow> Inl e
                   | Inr det \<Rightarrow> (case rec i of Inl e \<Rightarrow> Inl e
                                | Inr c \<Rightarrow> Inr (det + trm i c))) (Inr a) js = Inr (d::int) \<Longrightarrow>
     (\<forall>j\<in>set js. rec j = Inr (projr (rec j)))
     \<and> d = a + sum_list (map (\<lambda>j. trm j (projr (rec j))) js)"
proof (induction js arbitrary: a)
  case Nil
  then show ?case by simp
next
  case (Cons j js)
  show ?case
  proof (cases "rec j")
    case (Inl e)
    then show ?thesis using Cons.prems by (simp add: foldl_cofactor_Inl)
  next
    case (Inr x)
    then show ?thesis using Cons.prems Cons.IH[of "a + trm j x"] by simp
  qed
qed

lemma submatrix_store:
  assumes len: "length (ROW_INDEX m) = Suc n + 1"
  defines "g \<equiv> \<lambda>c i. map (\<lambda>(col, v). (if col < c then col else col - 1, v))
                         (filter (\<lambda>(col, v). col \<noteq> c) (row_entries m (Suc i)))"
  shows "length (ROW_INDEX (csrMatrixSubmatrix m 0 c)) = n + 1"
    and "in_model (csrMatrixSubmatrix m 0 c)"
    and "inv_offsets (csrMatrixSubmatrix m 0 c)"
    and "\<forall>i<n. row_entries (csrMatrixSubmatrix m 0 c) i = g c i"
proof -
  let ?s = "csrMatrixSubmatrix m 0 c"
  obtain sv sc sr where
    st: "foldl (\<lambda>st i. push_row st (g c i)) ([], [], [0]) [0..<n] = (sv, sc, sr)"
    using prod_cases3 by blast
  have "foldl (submatrix_row m 0 c) ([], [], [0]) [0..<Suc n] = (sv, sc, sr)"
    using st by (simp only: submatrix_fold g_def)
  then have fields: "V ?s = sv" "COL_INDEX ?s = sc" "ROW_INDEX ?s = sr"
    using len by (simp_all add: csrMatrixSubmatrix_def del: upt_Suc)
  show "length (ROW_INDEX ?s) = n + 1" "in_model ?s"
    using built_rows_in_model[OF st fields] by simp_all
  show "inv_offsets ?s" by (rule built_rows_offsets[OF st fields])
  show "\<forall>i<n. row_entries ?s i = g c i"
    using built_rows_entries[OF st fields] by simp
qed


lemma shifted_rows_ok:
  fixes es :: "(nat \<times> int) list"
  assumes d: "distinct (map fst es)" and b: "\<forall>e\<in>set es. fst e < Suc n" and c: "c \<le> n"
  defines "es' \<equiv> map (\<lambda>(col, v). (if col < c then col else col - 1, v))
                    (filter (\<lambda>(col, v). col \<noteq> c) es)"
  shows "distinct (map fst es')" and "\<forall>e\<in>set es'. fst e < n"
proof -
  have m: "map fst es' = map (\<lambda>col. if col < c then col else col - 1)
                           (filter (\<lambda>col. col \<noteq> c) (map fst es))"
    by (simp add: es'_def filter_map comp_def case_prod_unfold)
  have "inj_on (\<lambda>col. if col < c then col else col - 1) {col. col \<noteq> c}"
    by (auto simp: inj_on_def split: if_splits)
  then have "inj_on (\<lambda>col. if col < c then col else col - 1)
               (set (filter (\<lambda>col. col \<noteq> c) (map fst es)))"
    by (rule inj_on_subset) auto
  then show "distinct (map fst es')"
    using d by (simp only: m) (simp add: distinct_map)
  show "\<forall>e\<in>set es'. fst e < n"
  proof
    fix e assume "e \<in> set es'"
    then have "fst e \<in> set (map fst es')" by simp
    then have "fst e \<in> (\<lambda>col. if col < c then col else col - 1) `
                      {col \<in> fst ` set es. col \<noteq> c}"
      by (simp only: m) (simp add: image_def)
    then obtain col where col: "col \<in> fst ` set es" "col \<noteq> c"
      "fst e = (if col < c then col else col - 1)"
      by blast
    then have "col < Suc n" using b by auto
    then show "fst e < n" using col c by auto
  qed
qed

lemma laplace_det_nil: "laplace_det [] = 1"
  by (simp add: laplace_det.simps[of "[]"])

lemma laplace_det_single: "laplace_det [[x]] = x"
  by (simp add: laplace_det.simps[of "[[x]]"])

lemma laplace_det_unfold:
  "2 \<le> length d \<Longrightarrow>
     laplace_det d =
       sum_list (map (\<lambda>col. if hd d ! col = 0 then 0
                             else (if even col then 1 else - 1) * (hd d ! col)
                                    * laplace_det (minor d col))
                   [0..<length (hd d)])"
proof -
  assume "2 \<le> length d"
  then have a: "(length d = 0) = False" and b: "(length d = 1) = False" by auto
  show ?thesis by (subst laplace_det.simps) (simp only: a b if_False)
qed

lemma determinant_one_row_value:
  assumes len: "length (ROW_INDEX m) = 2" and im: "in_model m" and off: "inv_offsets m"
    and b: "\<forall>e\<in>set (row_entries m 0). fst e < 1"
  shows "(case V m of [] \<Rightarrow> 0 | v # _ \<Rightarrow> v)
           = (case map_of (row_entries m 0) 0 of None \<Rightarrow> 0 | Some y \<Rightarrow> y)"
proof -
  obtain x y where ri: "ROW_INDEX m = [x, y]"
    using len by (cases "ROW_INDEX m"; cases "tl (ROW_INDEX m)") auto
  have xy: "x = 0" "y = length (V m)" using off by (simp_all add: inv_offsets_def ri)
  have seg: "row_seg m 0 = [0..<length (V m)]" by (simp add: row_seg_def ri xy nth_opt_def)
  show ?thesis
  proof (cases "V m")
    case Nil
    then show ?thesis by (simp add: row_entries_def seg)
  next
    case (Cons v vs)
    then have "0 < length (V m)" by simp
    then have "[0..<length (V m)] = 0 # [Suc 0..<length (V m)]" by (rule upt_conv_Cons)
    then have "row_entries m 0 =
        (COL_INDEX m ! 0, V m ! 0) # map (\<lambda>j. (COL_INDEX m ! j, V m ! j)) [Suc 0..<length (V m)]"
      by (simp only: row_entries_def seg list.map)
    moreover from this b have "COL_INDEX m ! 0 = 0" by simp
    moreover have "V m ! 0 = v" using Cons by simp
    ultimately show ?thesis using Cons by simp
  qed
qed


lemma determinant_grid:
  "length (ROW_INDEX m) = n + 1 \<Longrightarrow> in_model m \<Longrightarrow> inv_offsets m \<Longrightarrow>
   \<forall>i<n. distinct (map fst (row_entries m i)) \<Longrightarrow>
   \<forall>i<n. \<forall>e\<in>set (row_entries m i). fst e < n \<Longrightarrow>
   csrMatrixDeterminant m = Inr d \<Longrightarrow> d = laplace_det (grid m n n)"
proof (induction n arbitrary: m d)
  case 0
  have "csrMatrixDeterminant m = Inr 1"
    using "0.prems"(1) by (subst csrMatrixDeterminant.simps) simp
  then show ?case using "0.prems"(6) by (simp add: grid_def laplace_det_nil)
next
  case (Suc n)
  note len = Suc.prems(1) and im = Suc.prems(2) and off = Suc.prems(3)
    and dist = Suc.prems(4) and bnd = Suc.prems(5) and run = Suc.prems(6)
  show ?case
  proof (cases "n = 0")
    case True
    have "csrMatrixDeterminant m = Inr (case V m of [] \<Rightarrow> 0 | v # _ \<Rightarrow> v)"
      using len True by (subst csrMatrixDeterminant.simps) simp
    then have "d = (case V m of [] \<Rightarrow> 0 | v # _ \<Rightarrow> v)" using run by simp
    also have "\<dots> = (case map_of (row_entries m 0) 0 of None \<Rightarrow> 0 | Some y \<Rightarrow> y)"
      using len im off bnd True by (intro determinant_one_row_value) simp_all
    finally show ?thesis using True by (simp add: grid_def laplace_det_single)
  next
    case False
    let ?G = "grid m (Suc n) (Suc n)"
    let ?es = "row_entries m 0"
    let ?L = "\<lambda>col. laplace_det (minor ?G col)"
    let ?rec = "\<lambda>j. csrMatrixDeterminant (csrMatrixSubmatrix m 0 (COL_INDEX m ! j))"
    let ?trm = "\<lambda>j cofactor. (if (0 + COL_INDEX m ! j) mod 2 = 0 then 1 else - 1) * (V m ! j) * cofactor"
    have n1: "int (length (ROW_INDEX m)) - 1 \<noteq> 0" "int (length (ROW_INDEX m)) - 1 \<noteq> 1"
      using len False by simp_all
    have unfold: "csrMatrixDeterminant m =
        (if Some (int (length (ROW_INDEX m)) - 1) \<noteq> maxCol (COL_INDEX m) then Inl NotSquareMatrix
         else foldl (\<lambda>acc i. case acc of Inl e \<Rightarrow> Inl e
                       | Inr det \<Rightarrow> (case ?rec i of Inl e \<Rightarrow> Inl e
                                    | Inr c \<Rightarrow> Inr (det + ?trm i c))) (Inr 0) (row_seg m 0))"
      apply (subst csrMatrixDeterminant.simps)
      unfolding Let_def
      using n1 im by simp
    then have fold: "foldl (\<lambda>acc i. case acc of Inl e \<Rightarrow> Inl e
                       | Inr det \<Rightarrow> (case ?rec i of Inl e \<Rightarrow> Inl e
                                    | Inr c \<Rightarrow> Inr (det + ?trm i c))) (Inr 0) (row_seg m 0) = Inr d"
      using run by (simp split: if_splits)
    from foldl_cofactor[OF fold] have
      recs: "\<forall>j\<in>set (row_seg m 0). ?rec j = Inr (projr (?rec j))"
      and d: "d = sum_list (map (\<lambda>j. ?trm j (projr (?rec j))) (row_seg m 0))"
      by simp_all
    have cof: "projr (?rec j) = ?L (COL_INDEX m ! j)" if j: "j \<in> set (row_seg m 0)" for j
    proof -
      let ?c = "COL_INDEX m ! j"
      let ?s = "csrMatrixSubmatrix m 0 ?c"
      have "(?c, V m ! j) \<in> set ?es" using j by (auto simp: row_entries_def)
      then have c: "?c \<le> n" using bnd by fastforce
      have len': "length (ROW_INDEX m) = Suc n + 1" using len by simp
      note s = submatrix_store[OF len', of ?c]
      have rows: "\<forall>i<n. row_entries ?s i =
           map (\<lambda>(col, v). (if col < ?c then col else col - 1, v))
             (filter (\<lambda>(col, v). col \<noteq> ?c) (row_entries m (Suc i)))"
        using s(4) by simp
      have "\<forall>i<n. distinct (map fst (row_entries ?s i))"
      proof (intro allI impI)
        fix i assume i: "i < n"
        from i have "Suc i < Suc n" by simp
        then have "distinct (map fst (row_entries m (Suc i)))"
          "\<forall>e\<in>set (row_entries m (Suc i)). fst e < Suc n"
          using dist bnd by blast+
        from shifted_rows_ok(1)[OF this c] show "distinct (map fst (row_entries ?s i))"
          using rows i by (simp only:)
      qed
      moreover have "\<forall>i<n. \<forall>e\<in>set (row_entries ?s i). fst e < n"
      proof (intro allI impI)
        fix i assume i: "i < n"
        from i have "Suc i < Suc n" by simp
        then have "distinct (map fst (row_entries m (Suc i)))"
          "\<forall>e\<in>set (row_entries m (Suc i)). fst e < Suc n"
          using dist bnd by blast+
        from shifted_rows_ok(2)[OF this c] show "\<forall>e\<in>set (row_entries ?s i). fst e < n"
          using rows i by (simp only:)
      qed
      ultimately have "projr (?rec j) = laplace_det (grid ?s n n)"
        using Suc.IH[OF s(1) s(2) s(3), of "projr (?rec j)"] recs j by simp
      also have "grid ?s n n = minor ?G ?c" by (rule grid_minor[OF c rows])
      finally show ?thesis .
    qed
    define h where "h = (\<lambda>col x. if x = 0 then 0 else (if even col then 1 else - 1) * x * ?L col)"
    have "d = sum_list (map (\<lambda>j. ?trm j (?L (COL_INDEX m ! j))) (row_seg m 0))"
      unfolding d by (intro arg_cong[where f = sum_list] map_cong refl) (simp add: cof)
    also have "\<dots> = sum_list (map (\<lambda>j. h (COL_INDEX m ! j) (V m ! j)) (row_seg m 0))"
      by (intro arg_cong[where f = sum_list] map_cong refl)
         (simp add: h_def even_iff_mod_2_eq_zero)
    also have "\<dots> = sum_list (map (\<lambda>e. h (fst e) (snd e)) ?es)"
      by (simp add: row_entries_def comp_def)
    also have "\<dots> = sum_list (map (\<lambda>col. h col (case map_of ?es col of None \<Rightarrow> 0 | Some y \<Rightarrow> y))
                                 [0..<Suc n])"
    proof -
      have "distinct (map fst ?es)" "\<forall>e\<in>set ?es. fst e < Suc n"
        using dist bnd by blast+
      then show ?thesis by (intro sum_lookup[symmetric]) (simp_all add: h_def)
    qed
    also have "\<dots> = laplace_det ?G"
    proof -
      have hdG: "hd ?G = map (\<lambda>j. case map_of ?es j of None \<Rightarrow> 0 | Some y \<Rightarrow> y) [0..<Suc n]"
        by (simp add: grid_def upt_conv_Cons del: upt_Suc)
      have lenG: "2 \<le> length ?G" using False by (simp add: grid_def)
      have "laplace_det ?G =
              sum_list (map (\<lambda>col. if hd ?G ! col = 0 then 0
                             else (if even col then 1 else - 1) * (hd ?G ! col) * ?L col)
                   [0..<Suc n])"
        using laplace_det_unfold[OF lenG] by (simp only: hdG length_map length_upt) simp
      also have "\<dots> = sum_list (map (\<lambda>col. h col (case map_of ?es col of None \<Rightarrow> 0 | Some y \<Rightarrow> y))
                                 [0..<Suc n])"
        by (intro arg_cong[where f = sum_list] map_cong refl)
           (simp add: hdG h_def del: upt_Suc)
      finally show ?thesis by simp
    qed
    finally show ?thesis .
  qed
qed

subsection \<open>\<open>set\<close>\<close>

text \<open>
  C1. For a store that satisfies the invariants, a non-zero value and a column absent from
  the row, \<open>set\<close> is claimed to insert at the sorted position, so that the row's columns
  are strictly increasing again. The source computes the position as
  \<open>ROW_INDEX[row] + columns.length\<close>, the end of the row's segment. On the 1 x 2 store
  holding 2 at (0, 1), \<open>set(0, 0, 1)\<close> leaves the row's columns as \<open>[1, 0]\<close>, and invariant 1
  is lost.
\<close>

theorem set_appends_after_larger_column:
  "csr_inv \<lparr>rows = 1, cols = 2, V = [2], COL_INDEX = [1], ROW_INDEX = [0, 1]\<rparr>
   \<and> 0 \<notin> set (columns_of
                \<lparr>rows = 1, cols = 2, V = [2], COL_INDEX = [1], ROW_INDEX = [0, 1]\<rparr> 0)
   \<and> set_cell \<lparr>rows = 1, cols = 2, V = [2], COL_INDEX = [1], ROW_INDEX = [0, 1]\<rparr> 0 0 1
       = Inr \<lparr>rows = 1, cols = 2, V = [2, 1], COL_INDEX = [1, 0], ROW_INDEX = [0, 2]\<rparr>
   \<and> columns_of \<lparr>rows = 1, cols = 2, V = [2, 1], COL_INDEX = [1, 0], ROW_INDEX = [0, 2]\<rparr> 0
       = [1, 0]
   \<and> \<not> inv_sorted
         \<lparr>rows = 1, cols = 2, V = [2, 1], COL_INDEX = [1, 0], ROW_INDEX = [0, 2]\<rparr>"
  by code_simp

text \<open>What the lost invariant costs: the Hadamard product of that store, whose dense
  projection is \<open>[[1, 2]]\<close>, with the store of \<open>[[3, 4]]\<close> misses the product at column 0.\<close>

lemma hadamard_after_set_misses_entry:
  "data \<lparr>rows = 1, cols = 2, V = [2, 1], COL_INDEX = [1, 0], ROW_INDEX = [0, 2]\<rparr>
     = Inr [[1, 2]]
   \<and> data \<lparr>rows = 1, cols = 2, V = [3, 4], COL_INDEX = [0, 1], ROW_INDEX = [0, 2]\<rparr>
       = Inr [[3, 4]]
   \<and> hadamard \<lparr>rows = 1, cols = 2, V = [2, 1], COL_INDEX = [1, 0], ROW_INDEX = [0, 2]\<rparr>
        \<lparr>rows = 1, cols = 2, V = [3, 4], COL_INDEX = [0, 1], ROW_INDEX = [0, 2]\<rparr>
       = Inr \<lparr>rows = 1, cols = 2, V = [8], COL_INDEX = [1], ROW_INDEX = [0, 1]\<rparr>
   \<and> data \<lparr>rows = 1, cols = 2, V = [8], COL_INDEX = [1], ROW_INDEX = [0, 1]\<rparr>
       = Inr [[0, 8]]"
  by code_simp

text \<open>
  C10. When column \<open>col\<close> is not among the columns \<open>set\<close> finds for row \<open>row\<close>, the call
  \<open>set(row, col, 0)\<close> changes nothing: the receiver after the call is the receiver before
  it, in all five fields. This holds for every store, whatever its offsets.
\<close>

theorem set_zero_absent_noop:
  "col \<notin> set (columns_of m row) \<Longrightarrow> set_cell m row col 0 = Inr m"
  by (simp add: set_cell_def index_of_None_iff [symmetric])

theorem set_zero_absent_noop_witness:
  "1 \<notin> set (columns_of
              \<lparr>rows = 2, cols = 2, V = [1, 4], COL_INDEX = [0, 1], ROW_INDEX = [0, 1, 2]\<rparr> 0)
   \<and> set_cell \<lparr>rows = 2, cols = 2, V = [1, 4], COL_INDEX = [0, 1], ROW_INDEX = [0, 1, 2]\<rparr>
         0 1 0
       = Inr \<lparr>rows = 2, cols = 2, V = [1, 4], COL_INDEX = [0, 1], ROW_INDEX = [0, 1, 2]\<rparr>"
proof -
  have h: "1 \<notin> set (columns_of
               \<lparr>rows = 2, cols = 2, V = [1, 4], COL_INDEX = [0, 1], ROW_INDEX = [0, 1, 2]\<rparr> 0)"
    by code_simp
  show ?thesis using h set_zero_absent_noop [OF h] by simp
qed

subsection \<open>\<open>map\<close>\<close>

text \<open>In the strict mode the receiver is left as it was.\<close>

lemma map_strict_receiver_unchanged: "fst (map_matrix callback True m) = m"
  by (simp add: map_matrix_def split: prod.splits)

text \<open>
  C2. \<open>map\<close> is claimed to leave the receiver's \<open>V\<close>, \<open>COL_INDEX\<close> and \<open>ROW_INDEX\<close> unchanged
  in both modes. In the non-strict mode the source pushes onto \<open>this.V\<close>,
  \<open>this.COL_INDEX\<close> and \<open>this.ROW_INDEX\<close>: for the example of its own documentation,
  the store of \<open>[[1, 0], [0, 4]]\<close> mapped with \<open>value + 2\<close>, the receiver grows by four
  values and two offsets, and the store returned is empty instead of holding
  \<open>[[3, 2], [2, 6]]\<close>.
\<close>

theorem map_nonstrict_mutates_receiver:
  "construct 2 2 (Some [Some [Num 1, Num 0], Some [Num 0, Num 4]])
     = Inr \<lparr>rows = 2, cols = 2, V = [1, 4], COL_INDEX = [0, 1], ROW_INDEX = [0, 1, 2]\<rparr>
   \<and> map_matrix (\<lambda>v row col. v + 2) False
        \<lparr>rows = 2, cols = 2, V = [1, 4], COL_INDEX = [0, 1], ROW_INDEX = [0, 1, 2]\<rparr>
       = (\<lparr>rows = 2, cols = 2, V = [1, 4, 3, 2, 2, 6], COL_INDEX = [0, 1, 0, 1, 0, 1],
           ROW_INDEX = [0, 1, 2, 2, 4]\<rparr>,
          Inr \<lparr>rows = 2, cols = 2, V = [], COL_INDEX = [], ROW_INDEX = [0]\<rparr>)"
  by code_simp

subsection \<open>\<open>determinant\<close>\<close>

text \<open>
  C3. The determinant of a square store that satisfies the invariants is claimed to be the
  first-row cofactor expansion of its dense projection. The source takes a store for
  square when \<open>max(COL_INDEX) + 1\<close> is its number of rows, at every level of the
  recursion. The 3 x 3 store of \<open>[[1, 0, 1], [1, 0, 0], [0, 1, 0]]\<close> passes that test, its
  minor for column 0 has an empty last column and does not, and the call fails with
  \<open>NotSquareMatrix\<close>, where the expansion gives 1.
\<close>

theorem determinant_rejects_square_store:
  "construct 3 3 (Some [Some [Num 1, Num 0, Num 1], Some [Num 1, Num 0, Num 0],
                        Some [Num 0, Num 1, Num 0]])
     = Inr \<lparr>rows = 3, cols = 3, V = [1, 1, 1, 1], COL_INDEX = [0, 2, 0, 1],
            ROW_INDEX = [0, 2, 3, 4]\<rparr>
   \<and> csr_inv \<lparr>rows = 3, cols = 3, V = [1, 1, 1, 1], COL_INDEX = [0, 2, 0, 1],
              ROW_INDEX = [0, 2, 3, 4]\<rparr>
   \<and> data \<lparr>rows = 3, cols = 3, V = [1, 1, 1, 1], COL_INDEX = [0, 2, 0, 1],
           ROW_INDEX = [0, 2, 3, 4]\<rparr>
       = Inr [[1, 0, 1], [1, 0, 0], [0, 1, 0]]
   \<and> laplace_det [[1, 0, 1], [1, 0, 0], [0, 1, 0]] = 1
   \<and> determinant \<lparr>rows = 3, cols = 3, V = [1, 1, 1, 1], COL_INDEX = [0, 2, 0, 1],
                  ROW_INDEX = [0, 2, 3, 4]\<rparr>
       = Inl NotSquareMatrix"
  by code_simp

text \<open>The same test at the top level: the 2 x 2 store of \<open>[[1, 0], [0, 0]]\<close> is rejected,
  and the store of the specification's scenario, \<open>[[1, 2], [3, 4]]\<close>, has determinant -2.\<close>

lemma determinant_empty_last_column:
  "construct 2 2 (Some [Some [Num 1, Num 0], Some [Num 0, Num 0]])
     = Inr \<lparr>rows = 2, cols = 2, V = [1], COL_INDEX = [0], ROW_INDEX = [0, 1, 1]\<rparr>
   \<and> laplace_det [[1, 0], [0, 0]] = 0
   \<and> determinant \<lparr>rows = 2, cols = 2, V = [1], COL_INDEX = [0], ROW_INDEX = [0, 1, 1]\<rparr>
       = Inl NotSquareMatrix"
  by code_simp

lemma determinant_scenario:
  "construct 2 2 (Some [Some [Num 1, Num 2], Some [Num 3, Num 4]])
     = Inr \<lparr>rows = 2, cols = 2, V = [1, 2, 3, 4], COL_INDEX = [0, 1, 0, 1],
            ROW_INDEX = [0, 2, 4]\<rparr>
   \<and> determinant \<lparr>rows = 2, cols = 2, V = [1, 2, 3, 4], COL_INDEX = [0, 1, 0, 1],
                  ROW_INDEX = [0, 2, 4]\<rparr>
       = Inr (- 2)
   \<and> laplace_det [[1, 2], [3, 4]] = - 2"
  by code_simp

text \<open>Where \<open>determinant\<close> does return a value on a square store that satisfies the
  invariants, the value is the cofactor expansion of the dense projection.\<close>

lemma determinant_cofactor_expansion:
  assumes inv: "csr_inv m" and sq: "rows m = cols m" and run: "determinant m = Inr d"
  shows "\<exists>D. data m = Inr D \<and> d = laplace_det D"
proof -
  note f = csr_inv_facts[OF inv]
  define n where "n = nat (rows m)"
  have off: "inv_offsets m" using inv by (simp add: csr_inv_def csr_invariants_def)
  have "\<forall>i<n. distinct (map fst (row_entries m i))"
    using row_entries_distinct[OF inv] by (simp add: n_def)
  moreover have "\<forall>i<n. \<forall>e\<in>set (row_entries m i). fst e < n"
    using row_entries_cols[OF inv] sq by (simp add: n_def)
  ultimately have "d = laplace_det (grid m n n)"
    using determinant_grid[of m n d] f(1,4) off run by (simp add: n_def determinant_def)
  moreover have "data m = Inr (grid m n n)"
    using data_is_grid[OF inv] sq by (simp add: n_def)
  ultimately show ?thesis by blast
qed

text \<open>
  C4. \<open>determinant\<close> is claimed to fail with \<open>NotSquareMatrix\<close> on every store with
  \<open>rows \<noteq> cols\<close>, and so on every 2 x 3 store. The 2 x 3 store of
  \<open>[[1, 2, 0], [3, 4, 0]]\<close> has two rows and largest column 1: the test passes and the
  call returns -2.
\<close>

theorem determinant_accepts_nonsquare_store:
  "construct 2 3 (Some [Some [Num 1, Num 2, Num 0], Some [Num 3, Num 4, Num 0]])
     = Inr \<lparr>rows = 2, cols = 3, V = [1, 2, 3, 4], COL_INDEX = [0, 1, 0, 1],
            ROW_INDEX = [0, 2, 4]\<rparr>
   \<and> rows \<lparr>rows = 2, cols = 3, V = [1, 2, 3, 4], COL_INDEX = [0, 1, 0, 1],
           ROW_INDEX = [0, 2, 4]\<rparr>
       \<noteq> cols \<lparr>rows = 2, cols = 3, V = [1, 2, 3, 4], COL_INDEX = [0, 1, 0, 1],
               ROW_INDEX = [0, 2, 4]\<rparr>
   \<and> determinant \<lparr>rows = 2, cols = 3, V = [1, 2, 3, 4], COL_INDEX = [0, 1, 0, 1],
                  ROW_INDEX = [0, 2, 4]\<rparr>
       = Inr (- 2)"
  by code_simp

text \<open>A store with one row returns before the test is reached, whatever its columns.\<close>

lemma determinant_one_row:
  "determinant \<lparr>rows = 1, cols = 3, V = [7, 8, 9], COL_INDEX = [0, 1, 2], ROW_INDEX = [0, 3]\<rparr>
     = Inr 7"
  by code_simp

subsection \<open>Construction\<close>

text \<open>
  C5, as amended. Construction with \<open>rows \<le> 0\<close> or \<open>cols \<le> 0\<close> does not fail: the
  constructor checks nothing, and returns a store with the dimensions it was given and no
  stored entry.
\<close>

theorem construct_nonpositive_shape:
  "r \<le> 0 \<or> c \<le> 0 \<Longrightarrow>
     \<exists>m. construct r c dd = Inr m \<and> rows m = r \<and> cols m = c \<and> V m = [] \<and> COL_INDEX m = []"
proof (cases dd)
  case None
  then show ?thesis by (simp add: construct_def)
next
  case (Some d)
  assume rc: "r \<le> 0 \<or> c \<le> 0"
  show ?thesis
  proof (cases "r \<le> 0")
    case True
    then show ?thesis using Some by (simp add: construct_def sparseData_def)
  next
    case False
    with rc have "nat c = 0" by simp
    then show ?thesis using Some
      by (simp add: construct_def sparseData_def foldl_sparse_row_no_cols)
  qed
qed

theorem construct_nonpositive_shape_witness:
  "((- 1 :: int) \<le> 0 \<or> (0 :: int) \<le> 0)
   \<and> (\<exists>m. construct (- 1) 0 (Some [Some [Num 5]]) = Inr m \<and> rows m = - 1 \<and> cols m = 0
          \<and> V m = [] \<and> COL_INDEX m = [])"
  using construct_nonpositive_shape [of "- 1" 0 "Some [Some [Num 5]]"] by simp

text \<open>C5, as stated, fails: construction of a 0 x -3 store returns a store.\<close>

theorem construct_nonpositive_shape_returns:
  "construct 0 (- 3) None
     = Inr \<lparr>rows = 0, cols = - 3, V = [], COL_INDEX = [], ROW_INDEX = [0]\<rparr>"
  by (simp add: construct_def)

text \<open>
  C8. In a store built from a dense array, \<open>get(i, j)\<close> for a cell inside the shape is
  the array's cell when its row exists and the cell is a number, and 0 otherwise (a zero
  cell is not stored, and reads back as 0 as well). The scenario of the specification,
  \<open>get(1, 3) = 40\<close> in the 4 x 6 store, is the witness.
\<close>

theorem construct_get:
  assumes "construct r c (Some d) = Inr m" "int i < r" "int j < c"
  shows "get m i j =
           Some (case nth_opt d i of
                   Some (Some row) \<Rightarrow> (case nth_opt row j of Some (Num x) \<Rightarrow> x | _ \<Rightarrow> 0)
                 | _ \<Rightarrow> 0)"
proof -
  let ?f = "\<lambda>i. List.map_filter (\<lambda>j. map_option (Pair j) (data_cell d i j)) [0..<nat c]"
  obtain cv cc cr where
    st: "foldl (\<lambda>st i. push_row st (?f i)) ([], [], [0]) [0..<nat r] = (cv, cc, cr)"
    using prod_cases3 by blast
  have "foldl (sparse_row d (nat c)) ([], [], [0], length ([] :: int list)) [0..<nat r]
          = (cv, cc, cr, length cv)"
    by (simp only: foldl_sparse_row_push_row st prod.case)
  then have sp: "foldl (sparse_row d (nat c)) ([], [], [0], 0) [0..<nat r]
          = (cv, cc, cr, length cv)"
    by simp
  have "sparseData \<lparr>rows = r, cols = c, V = [], COL_INDEX = [], ROW_INDEX = [0]\<rparr> d
          = \<lparr>rows = r, cols = c, V = cv, COL_INDEX = cc, ROW_INDEX = cr\<rparr>"
    unfolding sparseData_def by (simp add: sp)
  then have m: "m = \<lparr>rows = r, cols = c, V = cv, COL_INDEX = cc, ROW_INDEX = cr\<rparr>"
    using assms(1) by (simp add: construct_def)
  have fields: "V m = cv" "COL_INDEX m = cc" "ROW_INDEX m = cr" by (simp_all add: m)
  have i: "i < nat r" and j: "j < nat c" using assms by simp_all
  have im: "in_model m" and len: "length (ROW_INDEX m) = nat r + 1"
    using built_rows_in_model[OF st fields] by simp_all
  have "get m i j = Some (acc_get (row_entries m i) j)"
    using im len i by (simp add: get_row_entries)
  also have "row_entries m i = ?f i"
    by (rule built_rows_entries[OF st fields i])
  also have "acc_get (?f i) j = (case data_cell d i j of None \<Rightarrow> 0 | Some x \<Rightarrow> x)"
    using j by (simp add: acc_get_map_filter)
  finally show ?thesis by (simp only: data_cell_value)
qed


theorem construct_get_witness:
  "construct 4 6 (Some [Some [Num 10, Num 20], Some [Num 0, Num 30, Num 0, Num 40],
                        Some [Num 0, Num 0, Num 50, Num 60, Num 70],
                        Some [Num 0, Num 0, Num 0, Num 0, Num 0, Num 80]])
     = Inr \<lparr>rows = 4, cols = 6, V = [10, 20, 30, 40, 50, 60, 70, 80],
            COL_INDEX = [0, 1, 1, 3, 2, 3, 4, 5], ROW_INDEX = [0, 2, 4, 7, 8]\<rparr>
   \<and> int 1 < 4 \<and> int 3 < 6
   \<and> get \<lparr>rows = 4, cols = 6, V = [10, 20, 30, 40, 50, 60, 70, 80],
           COL_INDEX = [0, 1, 1, 3, 2, 3, 4, 5], ROW_INDEX = [0, 2, 4, 7, 8]\<rparr> 1 3 = Some 40
   \<and> get \<lparr>rows = 4, cols = 6, V = [10, 20, 30, 40, 50, 60, 70, 80],
           COL_INDEX = [0, 1, 1, 3, 2, 3, 4, 5], ROW_INDEX = [0, 2, 4, 7, 8]\<rparr> 0 3 = Some 0"
proof -
  have h: "construct 4 6 (Some [Some [Num 10, Num 20], Some [Num 0, Num 30, Num 0, Num 40],
                        Some [Num 0, Num 0, Num 50, Num 60, Num 70],
                        Some [Num 0, Num 0, Num 0, Num 0, Num 0, Num 80]])
     = Inr \<lparr>rows = 4, cols = 6, V = [10, 20, 30, 40, 50, 60, 70, 80],
            COL_INDEX = [0, 1, 1, 3, 2, 3, 4, 5], ROW_INDEX = [0, 2, 4, 7, 8]\<rparr>"
    by code_simp
  have a: "int 1 < 4" and b: "int 3 < 6" and c: "int 0 < 4" by simp_all
  show ?thesis
    using h construct_get [OF h a b] construct_get [OF h c b] by (simp add: nth_opt_def)
qed

subsection \<open>Addition, subtraction and multiplication\<close>

text \<open>
  C9. For operands whose shapes fit, the store that \<open>addition\<close>, \<open>subtract\<close> or \<open>multiply\<close>
  returns satisfies the three invariants: strictly increasing columns in every row, no
  stored zero, and offsets that start at 0, do not decrease and end at the number of
  stored entries. Nothing is asked of the operands' columns or values, which may be
  unsorted, repeated or zero; \<open>in_model\<close> only keeps the loops inside the operands' arrays.
\<close>

theorem merge_results_satisfy_invariants:
  assumes "in_model a" "in_model b"
  shows "(rows a = rows b \<and> cols a = cols b \<longrightarrow>
            (\<exists>c. addition a b = Inr c \<and> csr_invariants c)
            \<and> (\<exists>c. subtract a b = Inr c \<and> csr_invariants c))
         \<and> (cols a = rows b \<longrightarrow> (\<exists>c. multiply a b = Inr c \<and> csr_invariants c))"
proof (intro conjI impI)
  assume eq: "rows a = rows b \<and> cols a = cols b"
  obtain cv cc cr where
    st: "foldl (\<lambda>st i. push_row st (addition_row a b i)) ([], [], [0]) [0..<nat (rows a)]
           = (cv, cc, cr)"
    by (metis prod_cases3)
  let ?c = "\<lparr>rows = rows a, cols = cols a, V = cv, COL_INDEX = cc, ROW_INDEX = cr\<rparr>"
  have "addition a b = Inr ?c" using assms eq st by (simp add: addition_def)
  moreover have "csr_invariants ?c"
    by (rule built_rows_invariants[OF st]) (simp_all add: addition_row_ok)
  ultimately show "\<exists>c. addition a b = Inr c \<and> csr_invariants c" by blast
next
  assume eq: "rows a = rows b \<and> cols a = cols b"
  obtain cv cc cr where
    st: "foldl (\<lambda>st i. push_row st (subtract_row a b i)) ([], [], [0]) [0..<nat (rows a)]
           = (cv, cc, cr)"
    by (metis prod_cases3)
  let ?c = "\<lparr>rows = rows a, cols = cols a, V = cv, COL_INDEX = cc, ROW_INDEX = cr\<rparr>"
  have "subtract a b = Inr ?c" using assms eq st by (simp add: subtract_def)
  moreover have "csr_invariants ?c"
    by (rule built_rows_invariants[OF st]) (simp_all add: subtract_row_ok)
  ultimately show "\<exists>c. subtract a b = Inr c \<and> csr_invariants c" by blast
next
  assume eq: "cols a = rows b"
  obtain cv cc cr where
    st: "foldl (\<lambda>st i. push_row st (multiply_row a b i)) ([], [], [0])
           [0..<length (ROW_INDEX a) - 1] = (cv, cc, cr)"
    by (metis prod_cases3)
  let ?c = "\<lparr>rows = rows a, cols = cols b, V = cv, COL_INDEX = cc, ROW_INDEX = cr\<rparr>"
  have "multiply a b = Inr ?c" using assms eq st by (simp add: multiply_def)
  moreover have "csr_invariants ?c"
    by (rule built_rows_invariants[OF st]) (simp_all add: multiply_row_ok)
  ultimately show "\<exists>c. multiply a b = Inr c \<and> csr_invariants c" by blast
qed

theorem merge_results_satisfy_invariants_witness:
  "in_model \<lparr>rows = 2, cols = 2, V = [3, 0, - 3, 1], COL_INDEX = [1, 0, 1, 0],
             ROW_INDEX = [0, 3, 4]\<rparr>
   \<and> \<not> inv_sorted \<lparr>rows = 2, cols = 2, V = [3, 0, - 3, 1], COL_INDEX = [1, 0, 1, 0],
                    ROW_INDEX = [0, 3, 4]\<rparr>
   \<and> \<not> inv_nonzero \<lparr>rows = 2, cols = 2, V = [3, 0, - 3, 1], COL_INDEX = [1, 0, 1, 0],
                     ROW_INDEX = [0, 3, 4]\<rparr>
   \<and> in_model \<lparr>rows = 2, cols = 2, V = [5, 7], COL_INDEX = [0, 0], ROW_INDEX = [0, 1, 2]\<rparr>
   \<and> (\<exists>c. addition
             \<lparr>rows = 2, cols = 2, V = [3, 0, - 3, 1], COL_INDEX = [1, 0, 1, 0],
              ROW_INDEX = [0, 3, 4]\<rparr>
             \<lparr>rows = 2, cols = 2, V = [5, 7], COL_INDEX = [0, 0], ROW_INDEX = [0, 1, 2]\<rparr>
           = Inr c \<and> csr_invariants c)
   \<and> (\<exists>c. subtract
             \<lparr>rows = 2, cols = 2, V = [3, 0, - 3, 1], COL_INDEX = [1, 0, 1, 0],
              ROW_INDEX = [0, 3, 4]\<rparr>
             \<lparr>rows = 2, cols = 2, V = [5, 7], COL_INDEX = [0, 0], ROW_INDEX = [0, 1, 2]\<rparr>
           = Inr c \<and> csr_invariants c)
   \<and> (\<exists>c. multiply
             \<lparr>rows = 2, cols = 2, V = [3, 0, - 3, 1], COL_INDEX = [1, 0, 1, 0],
              ROW_INDEX = [0, 3, 4]\<rparr>
             \<lparr>rows = 2, cols = 2, V = [5, 7], COL_INDEX = [0, 0], ROW_INDEX = [0, 1, 2]\<rparr>
           = Inr c \<and> csr_invariants c)"
proof -
  have a: "in_model \<lparr>rows = 2, cols = 2, V = [3, 0, - 3, 1], COL_INDEX = [1, 0, 1, 0],
                     ROW_INDEX = [0, 3, 4]\<rparr>"
    by code_simp
  have b: "in_model \<lparr>rows = 2, cols = 2, V = [5, 7], COL_INDEX = [0, 0],
                     ROW_INDEX = [0, 1, 2]\<rparr>"
    by code_simp
  have c: "\<not> inv_sorted \<lparr>rows = 2, cols = 2, V = [3, 0, - 3, 1], COL_INDEX = [1, 0, 1, 0],
                          ROW_INDEX = [0, 3, 4]\<rparr>"
    by code_simp
  have d: "\<not> inv_nonzero \<lparr>rows = 2, cols = 2, V = [3, 0, - 3, 1], COL_INDEX = [1, 0, 1, 0],
                           ROW_INDEX = [0, 3, 4]\<rparr>"
    by code_simp
  show ?thesis
    using a b c d merge_results_satisfy_invariants [OF a b] by simp
qed

subsection \<open>Hadamard product\<close>

text \<open>
  C7. For operands of equal shape, \<open>a.hadamard(b)\<close> and \<open>b.hadamard(a)\<close> return the same
  store, so the same shape and the same dense projection. The two-pointer loop treats
  its operands alike, and the products commute; the order of the columns plays no part
  in this, and \<open>in_model\<close> only keeps the loops inside the operands' arrays. When both
  operands satisfy the invariants, so does the product, and its dense projection is a
  grid.
\<close>

theorem hadamard_commutes:
  assumes "in_model a" "in_model b" "rows a = rows b" "cols a = cols b"
  shows "\<exists>c. hadamard a b = Inr c \<and> hadamard b a = Inr c
             \<and> rows c = rows a \<and> cols c = cols a
             \<and> (csr_inv a \<and> csr_inv b \<longrightarrow> csr_inv c \<and> (\<exists>d. data c = Inr d))"
proof -
  have "\<exists>c. hadamard a b = Inr c \<and> rows c = rows a \<and> cols c = cols a"
    using assms by (simp add: hadamard_def split: prod.splits)
  then obtain c where c: "hadamard a b = Inr c" "rows c = rows a" "cols c = cols a"
    by blast
  have "hadamard b a = Inr c" using c(1) hadamard_commute[OF assms(3,4)] by simp
  moreover have "csr_inv c \<and> (\<exists>d. data c = Inr d)" if "csr_inv a" "csr_inv b"
    using hadamard_csr_inv[OF that assms(3,4)] c(1) by auto
  ultimately show ?thesis using c by blast
qed

theorem hadamard_commutes_witness:
  "csr_inv \<lparr>rows = 2, cols = 2, V = [2, 5, 1, 7], COL_INDEX = [0, 1, 0, 1],
            ROW_INDEX = [0, 2, 4]\<rparr>
   \<and> csr_inv \<lparr>rows = 2, cols = 2, V = [3, 7, 2, 9], COL_INDEX = [0, 1, 0, 1],
              ROW_INDEX = [0, 2, 4]\<rparr>
   \<and> hadamard \<lparr>rows = 2, cols = 2, V = [2, 5, 1, 7], COL_INDEX = [0, 1, 0, 1],
               ROW_INDEX = [0, 2, 4]\<rparr>
              \<lparr>rows = 2, cols = 2, V = [3, 7, 2, 9], COL_INDEX = [0, 1, 0, 1],
               ROW_INDEX = [0, 2, 4]\<rparr>
     = Inr \<lparr>rows = 2, cols = 2, V = [6, 35, 2, 63], COL_INDEX = [0, 1, 0, 1],
            ROW_INDEX = [0, 2, 4]\<rparr>
   \<and> hadamard \<lparr>rows = 2, cols = 2, V = [3, 7, 2, 9], COL_INDEX = [0, 1, 0, 1],
               ROW_INDEX = [0, 2, 4]\<rparr>
              \<lparr>rows = 2, cols = 2, V = [2, 5, 1, 7], COL_INDEX = [0, 1, 0, 1],
               ROW_INDEX = [0, 2, 4]\<rparr>
     = Inr \<lparr>rows = 2, cols = 2, V = [6, 35, 2, 63], COL_INDEX = [0, 1, 0, 1],
            ROW_INDEX = [0, 2, 4]\<rparr>
   \<and> csr_inv \<lparr>rows = 2, cols = 2, V = [6, 35, 2, 63], COL_INDEX = [0, 1, 0, 1],
              ROW_INDEX = [0, 2, 4]\<rparr>
   \<and> (\<exists>d. data \<lparr>rows = 2, cols = 2, V = [6, 35, 2, 63], COL_INDEX = [0, 1, 0, 1],
                 ROW_INDEX = [0, 2, 4]\<rparr> = Inr d)"
proof -
  have a: "in_model \<lparr>rows = 2, cols = 2, V = [2, 5, 1, 7], COL_INDEX = [0, 1, 0, 1],
             ROW_INDEX = [0, 2, 4]\<rparr>"
    by code_simp
  have b: "in_model \<lparr>rows = 2, cols = 2, V = [3, 7, 2, 9], COL_INDEX = [0, 1, 0, 1],
             ROW_INDEX = [0, 2, 4]\<rparr>"
    by code_simp
  have ia: "csr_inv \<lparr>rows = 2, cols = 2, V = [2, 5, 1, 7], COL_INDEX = [0, 1, 0, 1],
             ROW_INDEX = [0, 2, 4]\<rparr>"
    by code_simp
  have ib: "csr_inv \<lparr>rows = 2, cols = 2, V = [3, 7, 2, 9], COL_INDEX = [0, 1, 0, 1],
             ROW_INDEX = [0, 2, 4]\<rparr>"
    by code_simp
  have c: "hadamard \<lparr>rows = 2, cols = 2, V = [2, 5, 1, 7], COL_INDEX = [0, 1, 0, 1],
             ROW_INDEX = [0, 2, 4]\<rparr>
            \<lparr>rows = 2, cols = 2, V = [3, 7, 2, 9], COL_INDEX = [0, 1, 0, 1],
             ROW_INDEX = [0, 2, 4]\<rparr>
     = Inr \<lparr>rows = 2, cols = 2, V = [6, 35, 2, 63], COL_INDEX = [0, 1, 0, 1],
            ROW_INDEX = [0, 2, 4]\<rparr>"
    by code_simp
  show ?thesis
    using ia ib c hadamard_commutes [OF a b] by simp
qed

text \<open>The scenario of the specification: the product of \<open>[[2, 5], [1, 7]]\<close> and
  \<open>[[3, 7], [2, 9]]\<close> has the dense projection \<open>[[6, 35], [2, 63]]\<close>.\<close>

lemma hadamard_scenario:
  "data \<lparr>rows = 2, cols = 2, V = [6, 35, 2, 63], COL_INDEX = [0, 1, 0, 1],
         ROW_INDEX = [0, 2, 4]\<rparr> = Inr [[6, 35], [2, 63]]"
  by code_simp

subsection \<open>Transpose\<close>

text \<open>
  C6. For a store that satisfies the invariants, transposing twice succeeds and gives a
  store with the rows and cols of the original and the same dense projection, both as the
  \<open>data\<close> grid and as the \<open>toArray\<close> sequence.
\<close>

theorem transpose_round_trip:
  assumes inv: "csr_inv a"
  shows "\<exists>t tt d. transpose_matrix a = Inr t \<and> transpose_matrix t = Inr tt
           \<and> rows tt = rows a \<and> cols tt = cols a
           \<and> data a = Inr d \<and> data tt = Inr d \<and> toArray tt = toArray a"
proof -
  from transpose_rows[OF inv] obtain t where t: "transpose_matrix a = Inr t" by blast
  note it = transpose_csr_inv[OF inv t]
  from transpose_rows[OF it(1)] obtain tt where tt: "transpose_matrix t = Inr tt" by blast
  note itt = transpose_csr_inv[OF it(1) tt]
  have sh: "rows tt = rows a" "cols tt = cols a" using it itt by simp_all
  have cell: "get tt i j = get a i j" if "i < nat (rows a)" "j < nat (cols a)" for i j
  proof -
    have "get tt i j = get t j i"
      using that it by (intro transpose_get[OF it(1) tt]) simp_all
    also have "\<dots> = get a i j"
      using that by (intro transpose_get[OF inv t]) simp_all
    finally show ?thesis .
  qed
  have fa: "in_model a" "length (ROW_INDEX a) = nat (rows a) + 1"
    using csr_inv_facts[OF inv] by simp_all
  have ft: "in_model tt" "length (ROW_INDEX tt) = nat (rows a) + 1"
    using csr_inv_facts[OF itt(1)] sh by simp_all
  have acc: "acc_get (row_entries tt i) j = acc_get (row_entries a i) j"
    if "i < nat (rows a)" "j < nat (cols a)" for i j
  proof -
    have "Some (acc_get (row_entries tt i) j) = get tt i j"
      using ft that by (intro get_row_entries[symmetric]) simp_all
    also have "\<dots> = get a i j" by (rule cell[OF that])
    also have "\<dots> = Some (acc_get (row_entries a i) j)"
      using fa that by (intro get_row_entries) simp_all
    finally show ?thesis by simp
  qed
  have "data tt = data a"
    by (simp add: data_grid[OF inv] data_grid[OF itt(1)] sh acc)
  moreover have "toArray tt = toArray a"
  proof -
    have eq: "map (\<lambda>row. map (\<lambda>col. get tt row col) [0..<nat (cols a)]) [0..<nat (rows a)] =
          map (\<lambda>row. map (\<lambda>col. get a row col) [0..<nat (cols a)]) [0..<nat (rows a)]"
      by (intro map_cong refl) (simp add: cell)
    show ?thesis unfolding toArray_def sh by (rule arg_cong[OF eq])
  qed
  ultimately show ?thesis using t tt sh data_grid[OF inv] by simp
qed

theorem transpose_round_trip_witness:
  "csr_inv \<lparr>rows = 4, cols = 6, V = [10, 20, 30, 40, 50, 60, 70, 80],
            COL_INDEX = [0, 1, 1, 3, 2, 3, 4, 5], ROW_INDEX = [0, 2, 4, 7, 8]\<rparr>
   \<and> (\<exists>t tt d.
         transpose_matrix \<lparr>rows = 4, cols = 6, V = [10, 20, 30, 40, 50, 60, 70, 80],
            COL_INDEX = [0, 1, 1, 3, 2, 3, 4, 5], ROW_INDEX = [0, 2, 4, 7, 8]\<rparr> = Inr t
         \<and> transpose_matrix t = Inr tt \<and> rows tt = 4 \<and> cols tt = 6
         \<and> data \<lparr>rows = 4, cols = 6, V = [10, 20, 30, 40, 50, 60, 70, 80],
            COL_INDEX = [0, 1, 1, 3, 2, 3, 4, 5], ROW_INDEX = [0, 2, 4, 7, 8]\<rparr> = Inr d
         \<and> data tt = Inr d)"
proof -
  have h: "csr_inv \<lparr>rows = 4, cols = 6, V = [10, 20, 30, 40, 50, 60, 70, 80],
            COL_INDEX = [0, 1, 1, 3, 2, 3, 4, 5], ROW_INDEX = [0, 2, 4, 7, 8]\<rparr>"
    by code_simp
  show ?thesis
    using h transpose_round_trip [OF h] by simp blast
qed

text \<open>The scenario of the specification: the transpose of that store is 6 x 4 and has 40
  at (3, 1); transposing it gives the store back.\<close>

lemma transpose_scenario:
  "transpose_matrix \<lparr>rows = 4, cols = 6, V = [10, 20, 30, 40, 50, 60, 70, 80],
      COL_INDEX = [0, 1, 1, 3, 2, 3, 4, 5], ROW_INDEX = [0, 2, 4, 7, 8]\<rparr>
     = Inr \<lparr>rows = 6, cols = 4, V = [10, 20, 30, 50, 40, 60, 70, 80],
            COL_INDEX = [0, 0, 1, 2, 1, 2, 2, 3], ROW_INDEX = [0, 1, 3, 4, 6, 7, 8]\<rparr>
   \<and> get \<lparr>rows = 6, cols = 4, V = [10, 20, 30, 50, 40, 60, 70, 80],
           COL_INDEX = [0, 0, 1, 2, 1, 2, 2, 3], ROW_INDEX = [0, 1, 3, 4, 6, 7, 8]\<rparr> 3 1
       = Some 40
   \<and> transpose_matrix \<lparr>rows = 6, cols = 4, V = [10, 20, 30, 50, 40, 60, 70, 80],
           COL_INDEX = [0, 0, 1, 2, 1, 2, 2, 3], ROW_INDEX = [0, 1, 3, 4, 6, 7, 8]\<rparr>
       = Inr \<lparr>rows = 4, cols = 6, V = [10, 20, 30, 40, 50, 60, 70, 80],
              COL_INDEX = [0, 1, 1, 3, 2, 3, 4, 5], ROW_INDEX = [0, 2, 4, 7, 8]\<rparr>"
  by code_simp

end
